theory Spec2Isabelle
  imports Complex_Main "HOL-Library.Sublist" "HOL-Library.Log_Nat"
begin

section \<open>Python primitives used by SNN2MCU.py\<close>

text \<open>
  The tool is a Python script. Its integers are unbounded (\<open>int\<close>, \<open>nat\<close> for counts and
  indices), its floats are IEEE doubles: a finite double is modelled by the real number it
  denotes, next to the two infinities and NaN. Scaling a double by a power of two is exact
  as long as the product stays below \<open>2^1024\<close> in magnitude, and is an infinity beyond;
  truncating a finite double to an integer is exact. The one rounding operation of the
  script, the true division \<open>2**precision / 100\<close> of two integers, is modelled with its
  rounding to the nearest double.
\<close>

datatype error = IndexError | KeyError | TypeError | RuntimeError | OverflowError | ValueError

subsection \<open>Decimal strings\<close>

definition digit_char :: "nat \<Rightarrow> char" where
  "digit_char d = char_of (48 + d)"

definition is_digit :: "char \<Rightarrow> bool" where
  "is_digit c = (48 \<le> (of_char c :: nat) \<and> (of_char c :: nat) \<le> 57)"

definition digit_val :: "char \<Rightarrow> nat" where
  "digit_val c = of_char c - 48"

text \<open>\<open>str(n)\<close> for a non-negative integer.\<close>

fun str_nat :: "nat \<Rightarrow> string" where
  "str_nat n = (if n < 10 then [digit_char n] else str_nat (n div 10) @ [digit_char (n mod 10)])"

declare str_nat.simps [simp del]

text \<open>\<open>str(i)\<close> for any integer.\<close>

definition py_str :: "int \<Rightarrow> string" where
  "py_str i = (if i < 0 then CHR ''-'' # str_nat (nat (- i)) else str_nat (nat i))"

text \<open>\<open>int(s)\<close> for a string of decimal digits.\<close>

definition int_of_digits :: "string \<Rightarrow> nat" where
  "int_of_digits ds = foldl (\<lambda>acc c. 10 * acc + digit_val c) 0 ds"

text \<open>\<open>re.findall(r'\d+', name)[0]\<close>: the first maximal run of digits; the list is empty,
  and the index raises, when the name has no digit.\<close>

definition first_digit_run :: "string \<Rightarrow> error + string" where
  "first_digit_run name =
     (case dropWhile (\<lambda>c. \<not> is_digit c) name of
        [] \<Rightarrow> Inl IndexError
      | cs \<Rightarrow> Inr (takeWhile is_digit cs))"

definition layer_of :: "string \<Rightarrow> error + nat" where
  "layer_of name =
     (case first_digit_run name of Inl e \<Rightarrow> Inl e | Inr ds \<Rightarrow> Inr (int_of_digits ds))"

text \<open>\<open>sub in s\<close> on strings.\<close>

fun is_substring :: "string \<Rightarrow> string \<Rightarrow> bool" where
  "is_substring sub [] = (sub = [])"
| "is_substring sub (c # cs) = (prefix sub (c # cs) \<or> is_substring sub cs)"

definition is_weight_name :: "string \<Rightarrow> bool" where
  "is_weight_name name = is_substring ''weight'' name"

subsection \<open>Floats and integers\<close>

datatype pyfloat = Finite real | PosInf | NegInf | NaN

text \<open>\<open>int(x)\<close> for a finite float: truncation toward zero.\<close>

definition py_int :: "real \<Rightarrow> int" where
  "py_int x = (if 0 \<le> x then \<lfloor>x\<rfloor> else \<lceil>x\<rceil>)"

text \<open>\<open>int(x)\<close> for any float: an infinity raises OverflowError, NaN raises ValueError.\<close>

fun int_of_float :: "pyfloat \<Rightarrow> error + int" where
  "int_of_float (Finite x) = Inr (py_int x)"
| "int_of_float PosInf = Inl OverflowError"
| "int_of_float NegInf = Inl OverflowError"
| "int_of_float NaN = Inl ValueError"

text \<open>\<open>0 > x\<close> for a float; every comparison with NaN is false.\<close>

fun float_negative :: "pyfloat \<Rightarrow> bool" where
  "float_negative (Finite x) = (x < 0)"
| "float_negative NegInf = True"
| "float_negative PosInf = False"
| "float_negative NaN = False"

text \<open>\<open>2**bits\<close>: an integer for \<open>bits \<ge> 0\<close>, the float \<open>1 / 2**(-bits)\<close> otherwise.\<close>

definition pow2 :: "int \<Rightarrow> real" where
  "pow2 bits = (if 0 \<le> bits then 2 ^ nat bits else 1 / 2 ^ nat (- bits))"

text \<open>\<open>2**bits * x\<close> for a float \<open>x\<close>. For \<open>bits \<ge> 0\<close> the integer \<open>2**bits\<close> is first converted
  to a float, which raises OverflowError from \<open>2**1024\<close> on. The product of doubles is exact
  below \<open>2^1024\<close> in magnitude and an infinity from there on.\<close>

fun scale_float :: "int \<Rightarrow> pyfloat \<Rightarrow> error + pyfloat" where
  "scale_float bits (Finite x) =
     (if 1024 \<le> bits then Inl OverflowError
      else if 2 ^ 1024 \<le> pow2 bits * x then Inr PosInf
      else if pow2 bits * x \<le> - (2 ^ 1024) then Inr NegInf
      else Inr (Finite (pow2 bits * x)))"
| "scale_float bits PosInf = (if 1024 \<le> bits then Inl OverflowError else Inr PosInf)"
| "scale_float bits NegInf = (if 1024 \<le> bits then Inl OverflowError else Inr NegInf)"
| "scale_float bits NaN = (if 1024 \<le> bits then Inl OverflowError else Inr NaN)"

text \<open>Rounding to the nearest integer, ties to even.\<close>

definition round_half_even :: "real \<Rightarrow> int" where
  "round_half_even x =
     (let f = \<lfloor>x\<rfloor>; r = x - of_int f
      in if r < 1 / 2 then f else if 1 / 2 < r then f + 1 else if even f then f else f + 1)"

text \<open>The exponent \<open>e\<close> with \<open>2^e \<le> a / b < 2^(e+1)\<close>, for positive \<open>a\<close> and \<open>b\<close>, from
  their bit lengths.\<close>

definition quotient_exponent :: "int \<Rightarrow> int \<Rightarrow> int" where
  "quotient_exponent a b =
     (let la = bitlen a; lb = bitlen b
      in if b * 2 ^ nat la \<le> a * 2 ^ nat lb then la - lb else la - lb - 1)"

text \<open>\<open>a / b\<close> on positive integers: the quotient rounded to the nearest double (53
  significant bits, ties to even), as CPython's correctly rounded true division.\<close>

definition py_truediv :: "int \<Rightarrow> int \<Rightarrow> real" where
  "py_truediv a b =
     (let e = quotient_exponent a b
      in of_int (round_half_even (of_int a / of_int b * pow2 (52 - e))) * pow2 (e - 52))"

text \<open>The float that the literal \<open>0.9\<close> denotes.\<close>

definition float_0_9 :: real where
  "float_0_9 = 8106479329266893 / 9007199254740992"

section \<open>The quantizer\<close>

text \<open>\<open>int(2**bits * float_value)\<close>\<close>

definition scaled_int :: "int \<Rightarrow> pyfloat \<Rightarrow> error + int" where
  "scaled_int bits float_value =
     (case scale_float bits float_value of
        Inl e \<Rightarrow> Inl e
      | Inr product \<Rightarrow> int_of_float product)"

definition snn2mcu_value_cuantization :: "nat \<Rightarrow> pyfloat \<Rightarrow> bool \<Rightarrow> error + int" where
  "snn2mcu_value_cuantization number_of_bits float_value negatives_allowed =
     (let bits = int number_of_bits
      in if \<not> negatives_allowed
         then scaled_int bits (if float_negative float_value then Finite 0 else float_value)
         else scaled_int (bits - 1) float_value)"

section \<open>The parameter dictionary and its extractor\<close>

text \<open>A tensor of any rank: a scalar, or the sequence of its slices along the first
  dimension.\<close>

datatype tensor = Scalar pyfloat | Tensor "tensor list"

text \<open>Iterating a tensor and taking its \<open>len\<close> raise on a 0-dimensional tensor.\<close>

fun iter :: "tensor \<Rightarrow> error + tensor list" where
  "iter (Scalar x) = Inl TypeError"
| "iter (Tensor ts) = Inr ts"

fun len :: "tensor \<Rightarrow> error + nat" where
  "len (Scalar x) = Inl TypeError"
| "len (Tensor ts) = Inr (length ts)"

text \<open>\<open>t.item()\<close>: the value of a tensor of exactly one element.\<close>

fun item :: "tensor \<Rightarrow> error + pyfloat" where
  "item (Scalar x) = Inr x"
| "item (Tensor [t]) = item t"
| "item (Tensor ts) = Inl RuntimeError"

text \<open>A matrix as a tensor of rank 2.\<close>

definition matrix :: "pyfloat list list \<Rightarrow> tensor" where
  "matrix rows = Tensor (map (\<lambda>row. Tensor (map Scalar row)) rows)"

text \<open>\<open>param_dict\<close>: the keys \<open>'model_architecture'\<close> and \<open>'number_of_layers'\<close>, absent
  until they are assigned, and the keys \<open>'l<layer>_n<neuron>_w'\<close>.\<close>

record param_dict =
  model_architecture :: "nat list option"
  number_of_layers :: "nat option"
  weights :: "string \<rightharpoonup> pyfloat list"

definition empty_dict :: param_dict where
  "empty_dict = \<lparr>model_architecture = None, number_of_layers = None, weights = Map.empty\<rparr>"

definition weight_key :: "nat \<Rightarrow> nat \<Rightarrow> string" where
  "weight_key layer neuron_id = ''l'' @ str_nat layer @ ''_n'' @ str_nat neuron_id @ ''_w''"

text \<open>\<open>try: param_dict[key].append(x)  except: param_dict[key] = [x]\<close>\<close>

definition append_or_init :: "string \<Rightarrow> pyfloat \<Rightarrow> param_dict \<Rightarrow> param_dict" where
  "append_or_init k x d =
     d\<lparr>weights := (weights d)(k \<mapsto> (case weights d k of None \<Rightarrow> [x] | Some xs \<Rightarrow> xs @ [x]))\<rparr>"

text \<open>\<open>for weight in neuron\<close>, over the slices of \<open>neuron\<close>.\<close>

fun walk_weights :: "string \<Rightarrow> tensor list \<Rightarrow> param_dict \<Rightarrow> error + param_dict" where
  "walk_weights k [] d = Inr d"
| "walk_weights k (w # ws) d =
     (case item w of
        Inl e \<Rightarrow> Inl e
      | Inr x \<Rightarrow> walk_weights k ws (append_or_init k x d))"

text \<open>\<open>if 1 == layer and 0 == neuron_id: param_dict['model_architecture'] = [len(neuron)]\<close>\<close>

definition seed_architecture :: "nat \<Rightarrow> nat \<Rightarrow> tensor \<Rightarrow> param_dict \<Rightarrow> error + param_dict" where
  "seed_architecture layer neuron_id neuron d =
     (if layer = 1 \<and> neuron_id = 0
      then (case len neuron of
              Inl e \<Rightarrow> Inl e
            | Inr k \<Rightarrow> Inr (d\<lparr>model_architecture := Some [k]\<rparr>))
      else Inr d)"

text \<open>\<open>for neuron in param\<close>, over the slices of \<open>param\<close>, with the running \<open>neuron_id\<close>.\<close>

fun walk_neurons :: "nat \<Rightarrow> nat \<Rightarrow> tensor list \<Rightarrow> param_dict \<Rightarrow> error + param_dict" where
  "walk_neurons layer neuron_id [] d = Inr d"
| "walk_neurons layer neuron_id (neuron # rest) d =
     (case seed_architecture layer neuron_id neuron d of
        Inl e \<Rightarrow> Inl e
      | Inr d1 \<Rightarrow>
          (case iter neuron of
             Inl e \<Rightarrow> Inl e
           | Inr ws \<Rightarrow>
               (case walk_weights (weight_key layer neuron_id) ws d1 of
                  Inl e \<Rightarrow> Inl e
                | Inr d2 \<Rightarrow> walk_neurons layer (neuron_id + 1) rest d2)))"

text \<open>\<open>for name, param in model.named_parameters()\<close>\<close>

fun walk_parameters :: "(string \<times> tensor) list \<Rightarrow> param_dict \<Rightarrow> error + param_dict" where
  "walk_parameters [] d = Inr d"
| "walk_parameters ((name, param) # rest) d =
     (case layer_of name of
        Inl e \<Rightarrow> Inl e
      | Inr layer \<Rightarrow>
          if is_weight_name name
          then (case iter param of
                  Inl e \<Rightarrow> Inl e
                | Inr neurons \<Rightarrow>
                    (case walk_neurons layer 0 neurons d of
                       Inl e \<Rightarrow> Inl e
                     | Inr d1 \<Rightarrow>
                         (case model_architecture d1 of
                            None \<Rightarrow> Inl KeyError
                          | Some arch \<Rightarrow>
                              walk_parameters rest
                                (d1\<lparr>model_architecture := Some (arch @ [length neurons])\<rparr>))))
          else walk_parameters rest d)"

text \<open>The loop that adds the weights of the input neurons.\<close>

fun input_neurons :: "nat list \<Rightarrow> param_dict \<Rightarrow> param_dict" where
  "input_neurons [] d = d"
| "input_neurons (neuron_id # rest) d =
     input_neurons rest (append_or_init (weight_key 0 neuron_id) (Finite float_0_9) d)"

definition snn2mcu_param_dict_extractor :: "(string \<times> tensor) list \<Rightarrow> error + param_dict" where
  "snn2mcu_param_dict_extractor model =
     (case walk_parameters model empty_dict of
        Inl e \<Rightarrow> Inl e
      | Inr d \<Rightarrow>
          (case model_architecture d of
             None \<Rightarrow> Inl KeyError
           | Some arch \<Rightarrow>
               (case arch of
                  [] \<Rightarrow> Inl IndexError
                | a0 # _ \<Rightarrow>
                    Inr (input_neurons [0..<a0] (d\<lparr>number_of_layers := Some (length arch)\<rparr>)))))"

section \<open>The memory encoders\<close>

text \<open>Each encoder is modelled by the text it writes to its file.\<close>

text \<open>\<open>for w in param_dict[key]\<close>\<close>

fun emit_weights :: "nat \<Rightarrow> bool \<Rightarrow> pyfloat list \<Rightarrow> string \<Rightarrow> error + string" where
  "emit_weights precision negatives_allowed [] s = Inr s"
| "emit_weights precision negatives_allowed (w # ws) s =
     (case snn2mcu_value_cuantization precision w negatives_allowed of
        Inl e \<Rightarrow> Inl e
      | Inr q \<Rightarrow> emit_weights precision negatives_allowed ws (s @ py_str q @ '',''))"

text \<open>\<open>for n in range(param_dict['model_architecture'][l])\<close>\<close>

fun weights_neurons ::
  "param_dict \<Rightarrow> nat \<Rightarrow> bool \<Rightarrow> nat \<Rightarrow> nat list \<Rightarrow> string \<Rightarrow> error + string" where
  "weights_neurons d precision negatives_allowed l [] s = Inr s"
| "weights_neurons d precision negatives_allowed l (n # ns) s =
     (case weights d (weight_key l n) of
        None \<Rightarrow> Inl KeyError
      | Some ws \<Rightarrow>
          (case emit_weights precision negatives_allowed ws s of
             Inl e \<Rightarrow> Inl e
           | Inr s1 \<Rightarrow> weights_neurons d precision negatives_allowed l ns s1))"

text \<open>\<open>param_dict['model_architecture'][l]\<close>\<close>

definition architecture_at :: "param_dict \<Rightarrow> nat \<Rightarrow> error + nat" where
  "architecture_at d l =
     (case model_architecture d of
        None \<Rightarrow> Inl KeyError
      | Some arch \<Rightarrow> if l < length arch then Inr (arch ! l) else Inl IndexError)"

text \<open>\<open>for l in range(param_dict['number_of_layers'])\<close>\<close>

fun weights_layers ::
  "param_dict \<Rightarrow> nat \<Rightarrow> bool \<Rightarrow> nat list \<Rightarrow> string \<Rightarrow> error + string" where
  "weights_layers d precision negatives_allowed [] s = Inr s"
| "weights_layers d precision negatives_allowed (l # ls) s =
     (case architecture_at d l of
        Inl e \<Rightarrow> Inl e
      | Inr a \<Rightarrow>
          (case weights_neurons d precision negatives_allowed l [0..<a] s of
             Inl e \<Rightarrow> Inl e
           | Inr s1 \<Rightarrow> weights_layers d precision negatives_allowed ls s1))"

definition snn2mcu_weights :: "param_dict \<Rightarrow> nat \<Rightarrow> bool \<Rightarrow> error + string" where
  "snn2mcu_weights d precision negatives_allowed =
     (case number_of_layers d of
        None \<Rightarrow> Inl KeyError
      | Some nl \<Rightarrow>
          (case weights_layers d precision negatives_allowed [0..<nl] ''{'' of
             Inl e \<Rightarrow> Inl e
           | Inr s \<Rightarrow> Inr (butlast s @ ''}'')))"

text \<open>The loops of the threshold and leakage encoders add the same text \<open>c\<close> and a space
  for every neuron.\<close>

fun constant_neurons :: "string \<Rightarrow> nat list \<Rightarrow> string \<Rightarrow> string" where
  "constant_neurons c [] s = s"
| "constant_neurons c (n # ns) s = constant_neurons c ns (s @ c @ '' '')"

fun constant_layers :: "param_dict \<Rightarrow> string \<Rightarrow> nat list \<Rightarrow> string \<Rightarrow> error + string" where
  "constant_layers d c [] s = Inr s"
| "constant_layers d c (l # ls) s =
     (case architecture_at d l of
        Inl e \<Rightarrow> Inl e
      | Inr a \<Rightarrow> constant_layers d c ls (constant_neurons c [0..<a] s))"

definition coe_header :: string where
  "coe_header = ''memory_initialization_radix=10;'' @ [CHR 0x0A] @ ''memory_initialization_vector=''"

definition constant_artifact :: "param_dict \<Rightarrow> string \<Rightarrow> error + string" where
  "constant_artifact d c =
     (case number_of_layers d of
        None \<Rightarrow> Inl KeyError
      | Some nl \<Rightarrow>
          (case constant_layers d c [0..<nl] [] of
             Inl e \<Rightarrow> Inl e
           | Inr s \<Rightarrow> Inr (coe_header @ butlast s @ '';'')))"

text \<open>\<open>str(int((2**precision) - 1))\<close>\<close>

definition threshold_text :: "nat \<Rightarrow> string" where
  "threshold_text precision = py_str (2 ^ precision - 1)"

text \<open>\<open>str(int(2**precision / 100))\<close>\<close>

definition leakage_value :: "nat \<Rightarrow> int" where
  "leakage_value precision = py_int (py_truediv (2 ^ precision) 100)"

definition snn2mcu_thresholds :: "param_dict \<Rightarrow> nat \<Rightarrow> error + string" where
  "snn2mcu_thresholds d precision = constant_artifact d (threshold_text precision)"

definition snn2mcu_leakages :: "param_dict \<Rightarrow> nat \<Rightarrow> error + string" where
  "snn2mcu_leakages d precision = constant_artifact d (py_str (leakage_value precision))"

section \<open>Notions of the specification\<close>

text \<open>Joining texts with a separator.\<close>

fun join :: "string \<Rightarrow> string list \<Rightarrow> string" where
  "join sep [] = []"
| "join sep [x] = x"
| "join sep (x # y # ys) = x @ sep @ join sep (y # ys)"

text \<open>The weight vector stored for a neuron, and the weights of a table in the order
  layer, neuron, position.\<close>

definition neuron_vector :: "param_dict \<Rightarrow> nat \<Rightarrow> nat \<Rightarrow> pyfloat list" where
  "neuron_vector d l n = (case weights d (weight_key l n) of None \<Rightarrow> [] | Some ws \<Rightarrow> ws)"

definition table_weights :: "param_dict \<Rightarrow> nat \<Rightarrow> nat list \<Rightarrow> pyfloat list" where
  "table_weights d nl arch =
     concat (map (\<lambda>l. concat (map (neuron_vector d l) [0..<arch ! l])) [0..<nl])"

section \<open>The quantizer: properties\<close>

lemma py_int_nonneg: "0 \<le> x \<Longrightarrow> py_int x = \<lfloor>x\<rfloor>"
  by (simp add: py_int_def)

lemma scaled_int_finite:
  assumes "bits < 1024" and "\<bar>pow2 bits * x\<bar> < 2 ^ 1024"
  shows "scaled_int bits (Finite x) = Inr (py_int (pow2 bits * x))"
proof -
  from assms(2) have "\<not> 2 ^ 1024 \<le> pow2 bits * x" "\<not> pow2 bits * x \<le> - (2 ^ 1024)"
    by linarith+
  with assms(1) show ?thesis by (simp add: scaled_int_def)
qed

lemma scaled_int_too_wide: "1024 \<le> bits \<Longrightarrow> scaled_int bits v = Inl OverflowError"
  by (cases v) (simp_all add: scaled_int_def)

text \<open>
  Claim C1, as stated: for every bit width \<open>b \<ge> 1\<close> and every float \<open>v\<close> the quantizer
  without negatives returns \<open>floor (max v 0 * 2^b)\<close>. At \<open>b = 1024\<close> the integer \<open>2**1024\<close>
  has no double and the product raises OverflowError, also for \<open>v = 0.0\<close>, where the claim
  gives 0.
\<close>

theorem quantize_unsigned_range_counterexample:
  "snn2mcu_value_cuantization 1024 (Finite 0) False = Inl OverflowError"
  by (simp add: snn2mcu_value_cuantization_def scaled_int_too_wide)

text \<open>
  Claim C1, amended. For every bit width \<open>1 \<le> b \<le> 1023\<close> and every finite float \<open>v\<close> whose
  scaled value \<open>max v 0 * 2^b\<close> is below \<open>2^1024\<close>, the quantizer without negatives returns
  \<open>floor (max v 0 * 2^b)\<close>: a negative input (minus infinity too) is clamped to zero, all
  \<open>b\<close> bits are used for the scaling, and the scaled value is truncated.
\<close>

theorem quantize_unsigned:
  assumes "1 \<le> b" and "b \<le> 1023" and "max v 0 * 2 ^ b < 2 ^ 1024"
  shows "snn2mcu_value_cuantization b (Finite v) False = Inr \<lfloor>max v 0 * 2 ^ b\<rfloor>
     \<and> snn2mcu_value_cuantization b NegInf False = Inr 0"
proof -
  have p: "pow2 (int b) = 2 ^ b" by (simp add: pow2_def)
  have n: "0 \<le> 2 ^ b * max v 0" by simp
  from assms(2) have w: "int b < 1024" by simp
  from assms(3) n have "\<bar>pow2 (int b) * max v 0\<bar> < 2 ^ 1024"
    by (simp add: p mult.commute)
  from scaled_int_finite [OF w this]
  have "scaled_int (int b) (Finite (max v 0)) = Inr (py_int (2 ^ b * max v 0))" by (simp add: p)
  also have "py_int (2 ^ b * max v 0) = \<lfloor>2 ^ b * max v 0\<rfloor>" using n by (rule py_int_nonneg)
  finally have s: "scaled_int (int b) (Finite (max v 0)) = Inr \<lfloor>max v 0 * 2 ^ b\<rfloor>"
    by (simp add: mult.commute)
  have c: "(if float_negative (Finite v) then Finite 0 else Finite v) = Finite (max v 0)"
    by (simp add: max_def)
  have "\<bar>pow2 (int b) * 0\<bar> < (2::real) ^ 1024" by simp
  from scaled_int_finite [OF w this]
  have z: "scaled_int (int b) (Finite 0) = Inr 0" by (simp add: py_int_def)
  have "snn2mcu_value_cuantization b (Finite v) False = Inr \<lfloor>max v 0 * 2 ^ b\<rfloor>"
    unfolding snn2mcu_value_cuantization_def Let_def c by (simp add: s)
  moreover have "snn2mcu_value_cuantization b NegInf False = Inr 0"
    by (simp add: snn2mcu_value_cuantization_def z)
  ultimately show ?thesis by simp
qed

theorem quantize_unsigned_witness:
  "snn2mcu_value_cuantization 8 (Finite (- 3 / 4)) False = Inr 0
     \<and> snn2mcu_value_cuantization 8 (Finite (3 / 4)) False = Inr 192"
proof -
  have h1: "(1::nat) \<le> 8" and h2: "(8::nat) \<le> 1023" by simp_all
  have h3: "max (- 3 / 4) 0 * 2 ^ 8 < (2::real) ^ 1024" by simp
  have h4: "max (3 / 4) 0 * 2 ^ 8 < (2::real) ^ 1024" by simp
  from quantize_unsigned [OF h1 h2 h3] quantize_unsigned [OF h1 h2 h4]
  show ?thesis by simp
qed

text \<open>
  Claim C2, as stated: for every \<open>b \<ge> 2\<close> and every float \<open>v\<close> the quantizer with negatives
  returns \<open>floor (v * 2^(b-1))\<close>. It fails at \<open>b = 2\<close>, \<open>v = -0.75\<close>: the scaled value \<open>-1.5\<close>
  is truncated toward zero to \<open>-1\<close>, and its floor is \<open>-2\<close>. It fails at \<open>b = 1025\<close> too:
  \<open>2**1024\<close> has no double and the product raises OverflowError.
\<close>

theorem quantize_signed_floor_counterexample:
  "snn2mcu_value_cuantization 2 (Finite (- 3 / 4)) True = Inr (- 1)
     \<and> \<lfloor>(- 3 / 4 :: real) * 2 ^ (2 - 1)\<rfloor> = - 2
     \<and> snn2mcu_value_cuantization 1025 (Finite 0) True = Inl OverflowError"
proof -
  have "\<bar>pow2 1 * (- 3 / 4)\<bar> < 2 ^ 1024" by (simp add: pow2_def)
  from scaled_int_finite [OF _ this]
  have "scaled_int 1 (Finite (- 3 / 4)) = Inr (- 1)" by (simp add: pow2_def py_int_def)
  then show ?thesis
    by (simp add: snn2mcu_value_cuantization_def scaled_int_too_wide)
qed

text \<open>
  Claim C2, amended. For every bit width \<open>2 \<le> b \<le> 1024\<close> and every finite float \<open>v\<close> whose
  scaled value \<open>v * 2^(b-1)\<close> is below \<open>2^1024\<close> in magnitude, the quantizer with negatives
  returns \<open>v * 2^(b-1)\<close> truncated toward zero: its floor for \<open>v \<ge> 0\<close> and its ceiling for
  \<open>v < 0\<close>. The sign is kept and nothing is clamped, wrapped or saturated. In particular the
  weight \<open>-0.5\<close> at 5 bits gives \<open>-8\<close>.
\<close>

theorem quantize_signed_truncates:
  assumes "2 \<le> b" and "b \<le> 1024" and "\<bar>v * 2 ^ (b - 1)\<bar> < 2 ^ 1024"
  shows "snn2mcu_value_cuantization b (Finite v) True =
           Inr (if 0 \<le> v then \<lfloor>v * 2 ^ (b - 1)\<rfloor> else \<lceil>v * 2 ^ (b - 1)\<rceil>)
         \<and> snn2mcu_value_cuantization 5 (Finite (- 1 / 2)) True = Inr (- 8)"
proof -
  from assms(1) have e: "int b - 1 = int (b - 1)" by simp
  have q: "pow2 (int (b - 1)) * v = v * 2 ^ (b - 1)" by (simp add: pow2_def)
  from assms(1,2) have w: "int (b - 1) < 1024" by simp
  from assms(3) have "\<bar>pow2 (int (b - 1)) * v\<bar> < 2 ^ 1024" by (simp only: q)
  from scaled_int_finite [OF w this]
  have s: "scaled_int (int (b - 1)) (Finite v) = Inr (py_int (v * 2 ^ (b - 1)))"
    by (simp only: q)
  have z: "(0 \<le> v * 2 ^ (b - 1)) = (0 \<le> v)"
    by (simp add: zero_le_mult_iff power_le_zero_eq)
  have p: "py_int (v * 2 ^ (b - 1)) =
          (if 0 \<le> v then \<lfloor>v * 2 ^ (b - 1)\<rfloor> else \<lceil>v * 2 ^ (b - 1)\<rceil>)"
    unfolding py_int_def z ..
  have g: "snn2mcu_value_cuantization b (Finite v) True =
          Inr (if 0 \<le> v then \<lfloor>v * 2 ^ (b - 1)\<rfloor> else \<lceil>v * 2 ^ (b - 1)\<rceil>)"
    unfolding snn2mcu_value_cuantization_def Let_def e by (simp only: s p not_True_eq_False if_False)
  have "\<bar>pow2 4 * (- 1 / 2)\<bar> < 2 ^ 1024" by (simp add: pow2_def)
  from scaled_int_finite [OF _ this]
  have "scaled_int 4 (Finite (- 1 / 2)) = Inr (- 8)" by (simp add: pow2_def py_int_def)
  then have "snn2mcu_value_cuantization 5 (Finite (- 1 / 2)) True = Inr (- 8)"
    by (simp add: snn2mcu_value_cuantization_def)
  with g show ?thesis by simp
qed

theorem quantize_signed_truncates_witness:
  "snn2mcu_value_cuantization 3 (Finite (- 3 / 8)) True = Inr (- 1)
     \<and> snn2mcu_value_cuantization 3 (Finite (3 / 8)) True = Inr 1"
proof -
  have h1: "(2::nat) \<le> 3" and h2: "(3::nat) \<le> 1024" by simp_all
  have h3: "\<bar>(- 3 / 8) * 2 ^ (3 - 1)\<bar> < (2::real) ^ 1024" by simp
  have h4: "\<bar>(3 / 8) * 2 ^ (3 - 1)\<bar> < (2::real) ^ 1024" by simp
  from quantize_signed_truncates [OF h1 h2 h3] quantize_signed_truncates [OF h1 h2 h4]
  show ?thesis by simp
qed

section \<open>The memory encoders: properties\<close>

subsection \<open>Decimal texts of small numbers\<close>

lemma digit_char_simps:
  "digit_char 0 = CHR ''0''" "digit_char (Suc 0) = CHR ''1''" "digit_char 1 = CHR ''1''" "digit_char 2 = CHR ''2''"
  "digit_char 3 = CHR ''3''" "digit_char 4 = CHR ''4''" "digit_char 5 = CHR ''5''"
  "digit_char 6 = CHR ''6''" "digit_char 7 = CHR ''7''" "digit_char 8 = CHR ''8''"
  "digit_char 9 = CHR ''9''"
  by code_simp+

lemma weight_key_simps:
  "weight_key 0 0 = ''l0_n0_w''" "weight_key 0 1 = ''l0_n1_w''" "weight_key 1 0 = ''l1_n0_w''"
  "weight_key 0 (Suc 0) = ''l0_n1_w''" "weight_key (Suc 0) 0 = ''l1_n0_w''"
  by (simp_all add: weight_key_def str_nat.simps digit_char_simps)

subsection \<open>A text with a separator after every item, less its last character\<close>

lemma butlast_terminated:
  "butlast (concat (map (\<lambda>x. x @ [c]) xs)) = join [c] xs"
proof (induction xs)
  case Nil
  show ?case by simp
next
  case (Cons x xs)
  show ?case
  proof (cases xs)
    case Nil
    then show ?thesis by simp
  next
    case (Cons y ys)
    then have "concat (map (\<lambda>x. x @ [c]) xs) \<noteq> []" by simp
    then have "butlast (concat (map (\<lambda>x. x @ [c]) (x # xs)))
        = x @ [c] @ butlast (concat (map (\<lambda>x. x @ [c]) xs))"
      by (simp add: butlast_append)
    with Cons.IH Cons show ?thesis by simp
  qed
qed

lemma butlast_replicate_terminated:
  "butlast (concat (replicate n (c @ [t]))) = join [t] (replicate n c)"
proof -
  have "replicate n (c @ [t]) = map (\<lambda>x. x @ [t]) (replicate n c)" by simp
  then show ?thesis by (simp only: butlast_terminated)
qed

subsection \<open>The weights artifact\<close>

lemma emit_weights_eq:
  "\<forall>w \<in> set ws. \<not> isl (snn2mcu_value_cuantization p w neg) \<Longrightarrow>
     emit_weights p neg ws s =
       Inr (s @ concat (map (\<lambda>w. py_str (projr (snn2mcu_value_cuantization p w neg)) @ '','') ws))"
proof (induction ws arbitrary: s)
  case Nil
  show ?case by simp
next
  case (Cons w ws)
  from Cons.prems obtain q where q: "snn2mcu_value_cuantization p w neg = Inr q"
    by (cases "snn2mcu_value_cuantization p w neg") simp_all
  from Cons.prems have "\<forall>w \<in> set ws. \<not> isl (snn2mcu_value_cuantization p w neg)" by simp
  from Cons.IH [OF this] show ?case by (simp add: q)
qed

lemma emit_weights_raises:
  "w \<in> set ws \<Longrightarrow> snn2mcu_value_cuantization p w neg = Inl e \<Longrightarrow>
     isl (emit_weights p neg ws s)"
proof (induction ws arbitrary: s)
  case Nil
  then show ?case by simp
next
  case (Cons x ws)
  then show ?case by (cases "snn2mcu_value_cuantization p x neg") auto
qed

lemma weights_neurons_eq:
  "\<forall>n \<in> set ns. weights d (weight_key l n) \<noteq> None \<Longrightarrow>
   \<forall>w \<in> set (concat (map (neuron_vector d l) ns)). \<not> isl (snn2mcu_value_cuantization p w neg) \<Longrightarrow>
     weights_neurons d p neg l ns s =
       Inr (s @ concat (map (\<lambda>w. py_str (projr (snn2mcu_value_cuantization p w neg)) @ '','')
                          (concat (map (neuron_vector d l) ns))))"
proof (induction ns arbitrary: s)
  case Nil
  show ?case by simp
next
  case (Cons n ns)
  from Cons.prems(1) obtain ws where ws: "weights d (weight_key l n) = Some ws" by auto
  then have v: "neuron_vector d l n = ws" by (simp add: neuron_vector_def)
  from Cons.prems(2) v have q: "\<forall>w \<in> set ws. \<not> isl (snn2mcu_value_cuantization p w neg)"
    by simp
  from Cons.prems have "\<forall>n \<in> set ns. weights d (weight_key l n) \<noteq> None"
    "\<forall>w \<in> set (concat (map (neuron_vector d l) ns)). \<not> isl (snn2mcu_value_cuantization p w neg)"
    by simp_all
  from Cons.IH [OF this] show ?case by (simp add: ws v emit_weights_eq [OF q])
qed

lemma weights_layers_eq:
  assumes "model_architecture d = Some arch"
  shows "\<forall>l \<in> set ls. l < length arch \<and> (\<forall>n < arch ! l. weights d (weight_key l n) \<noteq> None) \<Longrightarrow>
   \<forall>w \<in> set (concat (map (\<lambda>l. concat (map (neuron_vector d l) [0..<arch ! l])) ls)).
      \<not> isl (snn2mcu_value_cuantization p w neg) \<Longrightarrow>
     weights_layers d p neg ls s =
       Inr (s @ concat (map (\<lambda>w. py_str (projr (snn2mcu_value_cuantization p w neg)) @ '','')
              (concat (map (\<lambda>l. concat (map (neuron_vector d l) [0..<arch ! l])) ls))))"
proof (induction ls arbitrary: s)
  case Nil
  show ?case by simp
next
  case (Cons l ls)
  from Cons.prems(1) have l: "l < length arch"
    and k: "\<forall>n \<in> set [0..<arch ! l]. weights d (weight_key l n) \<noteq> None" by simp_all
  from Cons.prems(2) have q: "\<forall>w \<in> set (concat (map (neuron_vector d l) [0..<arch ! l])).
      \<not> isl (snn2mcu_value_cuantization p w neg)" by simp
  from Cons.prems have
    "\<forall>l \<in> set ls. l < length arch \<and> (\<forall>n < arch ! l. weights d (weight_key l n) \<noteq> None)"
    "\<forall>w \<in> set (concat (map (\<lambda>l. concat (map (neuron_vector d l) [0..<arch ! l])) ls)).
      \<not> isl (snn2mcu_value_cuantization p w neg)"
    by simp_all
  from Cons.IH [OF this] show ?case
    by (simp add: architecture_at_def assms l weights_neurons_eq [OF k q])
qed

text \<open>
  Claim C4, as stated: for every table with at least one weight, every bit width and
  either sign policy the weights encoder produces the text. At the bit width 1024 the
  quantizer raises OverflowError on the first weight, and no text is produced.
\<close>

theorem weights_artifact_range_counterexample:
  "snn2mcu_weights
     \<lparr>model_architecture = Some [1], number_of_layers = Some 1,
      weights = [''l0_n0_w'' \<mapsto> [Finite (1 / 2)]]\<rparr> 1024 False
   = Inl OverflowError"
proof -
  have "snn2mcu_value_cuantization 1024 (Finite (1 / 2)) False = Inl OverflowError"
    by (simp add: snn2mcu_value_cuantization_def scaled_int_too_wide)
  then show ?thesis
    by (simp add: snn2mcu_weights_def architecture_at_def weight_key_simps)
qed

text \<open>
  Claim C4, amended. For a table whose layers and neurons all have their weight vector and
  that holds at least one weight, at every bit width and with either sign policy for which
  the quantizer returns a value on every weight of the table, the weights encoder writes
  \<open>{\<close>, the quantized weights joined by single commas, and \<open>}\<close>: no trailing comma and no
  header. The weights come in the order layer \<open>0..number_of_layers-1\<close>, neuron
  \<open>0..model_architecture[l]-1\<close>, position in the stored vector, each as the decimal text of
  its quantized value.
\<close>

theorem weights_artifact:
  assumes "number_of_layers d = Some nl" and "model_architecture d = Some arch"
    and "nl \<le> length arch"
    and "\<forall>l < nl. \<forall>n < arch ! l. weights d (weight_key l n) \<noteq> None"
    and "table_weights d nl arch \<noteq> []"
    and "\<forall>w \<in> set (table_weights d nl arch). \<not> isl (snn2mcu_value_cuantization b w neg)"
  shows "snn2mcu_weights d b neg =
           Inr (''{'' @ join '','' (map (\<lambda>w. py_str (projr (snn2mcu_value_cuantization b w neg)))
                                     (table_weights d nl arch)) @ ''}'')"
proof -
  let ?q = "\<lambda>w. py_str (projr (snn2mcu_value_cuantization b w neg))"
  let ?ws = "table_weights d nl arch"
  have k: "\<forall>l \<in> set [0..<nl]. l < length arch \<and> (\<forall>n < arch ! l. weights d (weight_key l n) \<noteq> None)"
    using assms(3,4) by simp
  have r: "\<forall>w \<in> set (concat (map (\<lambda>l. concat (map (neuron_vector d l) [0..<arch ! l])) [0..<nl])).
      \<not> isl (snn2mcu_value_cuantization b w neg)"
    using assms(6) by (simp only: table_weights_def)
  from weights_layers_eq [OF assms(2) k r]
  have w: "weights_layers d b neg [0..<nl] ''{'' = Inr (''{'' @ concat (map (\<lambda>w. ?q w @ '','') ?ws))"
    by (simp add: table_weights_def)
  have m: "map (\<lambda>w. ?q w @ '','') ?ws = map (\<lambda>x. x @ '','') (map ?q ?ws)" by simp
  have "concat (map (\<lambda>w. ?q w @ '','') ?ws) \<noteq> []" using assms(5) by (cases ?ws) simp_all
  then have "butlast (''{'' @ concat (map (\<lambda>w. ?q w @ '','') ?ws))
      = ''{'' @ butlast (concat (map (\<lambda>w. ?q w @ '','') ?ws))"
    by (simp add: butlast_append)
  also have "\<dots> = ''{'' @ join '','' (map ?q ?ws)"
    by (simp only: m butlast_terminated)
  finally show ?thesis by (simp add: snn2mcu_weights_def assms(1) w)
qed

theorem weights_artifact_witness:
  "snn2mcu_weights
     \<lparr>model_architecture = Some [2, 1], number_of_layers = Some 2,
      weights = [''l0_n0_w'' \<mapsto> [Finite float_0_9], ''l0_n1_w'' \<mapsto> [Finite float_0_9],
                 ''l1_n0_w'' \<mapsto> [Finite (1 / 2), Finite (- 1 / 4)]]\<rparr> 8 False
   = Inr ''{230,230,128,0}''"
proof -
  let ?d = "\<lparr>model_architecture = Some [2, 1], number_of_layers = Some 2,
      weights = [''l0_n0_w'' \<mapsto> [Finite float_0_9], ''l0_n1_w'' \<mapsto> [Finite float_0_9],
                 ''l1_n0_w'' \<mapsto> [Finite (1 / 2), Finite (- 1 / 4)]]\<rparr>"
  let ?ws = "[Finite float_0_9, Finite float_0_9, Finite (1 / 2), Finite (- 1 / 4)]"
  have h1: "number_of_layers ?d = Some 2" by simp
  have h2: "model_architecture ?d = Some [2, 1]" by simp
  have h3: "(2::nat) \<le> length [2, 1 :: nat]" by simp
  have h4: "\<forall>l < 2. \<forall>n < [2, 1] ! l. weights ?d (weight_key l n) \<noteq> None"
    by (simp add: numeral_2_eq_2 All_less_Suc weight_key_simps)
  have t: "table_weights ?d 2 [2, 1] = ?ws"
    by (simp add: table_weights_def neuron_vector_def numeral_2_eq_2 weight_key_simps)
  have h5: "table_weights ?d 2 [2, 1] \<noteq> []" unfolding t by simp
  have q: "map (\<lambda>w. snn2mcu_value_cuantization 8 w False) ?ws = [Inr 230, Inr 230, Inr 128, Inr 0]"
    by (simp add: snn2mcu_value_cuantization_def scaled_int_def pow2_def py_int_def float_0_9_def)
  have h6: "\<forall>w \<in> set (table_weights ?d 2 [2, 1]). \<not> isl (snn2mcu_value_cuantization 8 w False)"
    unfolding t
    by (simp add: snn2mcu_value_cuantization_def scaled_int_def pow2_def py_int_def float_0_9_def)
  have "map (\<lambda>w. py_str (projr (snn2mcu_value_cuantization 8 w False))) ?ws
      = map (\<lambda>r. py_str (projr r)) (map (\<lambda>w. snn2mcu_value_cuantization 8 w False) ?ws)"
    by simp
  also have "\<dots> = [''230'', ''230'', ''128'', ''0'']"
    unfolding q by (simp add: py_str_def str_nat.simps digit_char_simps)
  finally have p: "map (\<lambda>w. py_str (projr (snn2mcu_value_cuantization 8 w False))) ?ws
      = [''230'', ''230'', ''128'', ''0'']" .
  have "snn2mcu_weights ?d 8 False =
      Inr (''{'' @ join '','' (map (\<lambda>w. py_str (projr (snn2mcu_value_cuantization 8 w False)))
                                (table_weights ?d 2 [2, 1])) @ ''}'')"
    by (rule weights_artifact [OF h1 h2 h3 h4 h5 h6])
  also have "\<dots> = Inr ''{230,230,128,0}''" unfolding t p by simp
  finally show ?thesis .
qed

subsection \<open>The threshold and leakage artifacts\<close>

lemma constant_neurons_eq:
  "constant_neurons c ns s = s @ concat (replicate (length ns) (c @ '' ''))"
  by (induction ns arbitrary: s) simp_all

lemma constant_layers_eq:
  "model_architecture d = Some arch \<Longrightarrow> \<forall>l \<in> set ls. l < length arch \<Longrightarrow>
     constant_layers d c ls s =
       Inr (s @ concat (replicate (sum_list (map ((!) arch) ls)) (c @ '' '')))"
proof (induction ls arbitrary: s)
  case Nil
  show ?case by simp
next
  case (Cons l ls)
  then show ?case
    by (simp add: architecture_at_def constant_neurons_eq replicate_add)
qed

lemma map_nth_take:
  "nl \<le> length arch \<Longrightarrow> map ((!) arch) [0..<nl] = take nl arch"
  by (rule nth_equalityI) simp_all

lemma constant_artifact_eq:
  assumes "number_of_layers d = Some nl" and "model_architecture d = Some arch"
    and "nl \<le> length arch"
  shows "constant_artifact d c =
           Inr (coe_header @ join '' '' (replicate (sum_list (take nl arch)) c) @ '';'')"
proof -
  have "\<forall>l \<in> set [0..<nl]. l < length arch" using assms(3) by simp
  then have "constant_layers d c [0..<nl] [] =
      Inr (concat (replicate (sum_list (map ((!) arch) [0..<nl])) (c @ '' '')))"
    using constant_layers_eq [OF assms(2), of "[0..<nl]" c "[]"] by simp
  then have "constant_layers d c [0..<nl] [] =
      Inr (concat (replicate (sum_list (take nl arch)) (c @ '' '')))"
    by (simp add: map_nth_take [OF assms(3)])
  then show ?thesis
    by (simp add: constant_artifact_def assms(1) butlast_replicate_terminated)
qed

text \<open>
  Claim C6. For a table and a bit width \<open>b\<close>, the threshold encoder writes the two header
  lines \<open>memory_initialization_radix=10;\<close> and \<open>memory_initialization_vector=\<close>, then
  the decimal text of \<open>2^b - 1\<close> once for every neuron of every layer, separated by single
  spaces and closed by \<open>;\<close>. For the architecture \<open>[3,2,1]\<close> and \<open>b = 4\<close> these are six
  occurrences of \<open>15\<close>.
\<close>

theorem thresholds_artifact:
  assumes "number_of_layers d = Some nl" and "model_architecture d = Some arch"
    and "nl \<le> length arch"
  shows "snn2mcu_thresholds d b =
           Inr (''memory_initialization_radix=10;'' @ [CHR 0x0A] @ ''memory_initialization_vector=''
                @ join '' '' (replicate (sum_list (take nl arch)) (py_str (2 ^ b - 1))) @ '';'')
         \<and> snn2mcu_thresholds
              \<lparr>model_architecture = Some [3, 2, 1], number_of_layers = Some 3, weights = w\<rparr> 4 =
           Inr (''memory_initialization_radix=10;'' @ [CHR 0x0A] @ ''memory_initialization_vector=''
                @ ''15 15 15 15 15 15;'')"
proof -
  let ?d = "\<lparr>model_architecture = Some [3, 2, 1], number_of_layers = Some 3, weights = w\<rparr>"
  have g: "snn2mcu_thresholds d b =
           Inr (''memory_initialization_radix=10;'' @ [CHR 0x0A] @ ''memory_initialization_vector=''
                @ join '' '' (replicate (sum_list (take nl arch)) (py_str (2 ^ b - 1))) @ '';'')"
    using constant_artifact_eq [OF assms]
    by (simp add: snn2mcu_thresholds_def threshold_text_def coe_header_def)
  have h1: "number_of_layers ?d = Some 3" by simp
  have h2: "model_architecture ?d = Some [3, 2, 1]" by simp
  have h3: "(3::nat) \<le> length [3, 2, 1 :: nat]" by simp
  have p: "threshold_text 4 = ''15''"
    by (simp add: threshold_text_def py_str_def str_nat.simps digit_char_simps)
  have r: "replicate (sum_list (take 3 [3, 2, 1])) ''15'' = [''15'', ''15'', ''15'', ''15'', ''15'', ''15'']"
    by (simp add: numeral_eq_Suc)
  have "snn2mcu_thresholds ?d 4 =
      Inr (coe_header @ join '' '' (replicate (sum_list (take 3 [3, 2, 1])) (threshold_text 4)) @ '';'')"
    unfolding snn2mcu_thresholds_def by (rule constant_artifact_eq [OF h1 h2 h3])
  also have "\<dots> = Inr (''memory_initialization_radix=10;'' @ [CHR 0x0A]
      @ ''memory_initialization_vector='' @ ''15 15 15 15 15 15;'')"
    unfolding p r coe_header_def by simp
  finally show ?thesis using g by simp
qed

theorem thresholds_artifact_witness:
  "snn2mcu_thresholds \<lparr>model_architecture = Some [2, 2], number_of_layers = Some 2,
      weights = Map.empty\<rparr> 3
   = Inr (''memory_initialization_radix=10;'' @ [CHR 0x0A] @ ''memory_initialization_vector=''
          @ ''7 7 7 7;'')"
proof -
  let ?d = "\<lparr>model_architecture = Some [2, 2], number_of_layers = Some 2,
      weights = Map.empty :: string \<rightharpoonup> pyfloat list\<rparr>"
  have h1: "number_of_layers ?d = Some 2" by simp
  have h2: "model_architecture ?d = Some [2, 2]" by simp
  have h3: "(2::nat) \<le> length [2, 2 :: nat]" by simp
  have p: "py_str (2 ^ 3 - 1) = ''7''"
    by (simp add: py_str_def str_nat.simps digit_char_simps)
  have r: "replicate (sum_list (take 2 [2, 2])) ''7'' = [''7'', ''7'', ''7'', ''7'']"
    by (simp add: numeral_eq_Suc)
  have "snn2mcu_thresholds ?d 3 =
      Inr (''memory_initialization_radix=10;'' @ [CHR 0x0A] @ ''memory_initialization_vector=''
           @ join '' '' (replicate (sum_list (take 2 [2, 2])) (py_str (2 ^ 3 - 1))) @ '';'')"
    using thresholds_artifact [OF h1 h2 h3, of 3] by (rule conjunct1)
  also have "\<dots> = Inr (''memory_initialization_radix=10;'' @ [CHR 0x0A]
      @ ''memory_initialization_vector='' @ ''7 7 7 7;'')"
    unfolding p r by simp
  finally show ?thesis .
qed

subsection \<open>The leakage constant\<close>

lemma bitlen_100: "bitlen 100 = 7"
  by code_simp

lemma bitlen_power2: "bitlen (2 ^ b) = int b + 1"
proof -
  have "bitlen (1 * 2 ^ b) = bitlen 1 + int b" by (rule bitlen_pow2) simp
  moreover have "bitlen 1 = 1" by code_simp
  ultimately show ?thesis by simp
qed

lemma quotient_exponent_leakage: "quotient_exponent (2 ^ b) 100 = int b - 7"
proof -
  have "\<not> (100 * 2 ^ (b + 1) \<le> (2::int) ^ b * 2 ^ 7)" by simp
  then show ?thesis
    by (simp add: quotient_exponent_def bitlen_100 bitlen_power2 Let_def nat_add_distrib)
qed

lemma round_half_even_leakage: "round_half_even (2 ^ 59 / 100) = 5764607523034235"
  by (simp add: round_half_even_def Let_def)

lemma py_truediv_leakage:
  assumes "b \<le> 59"
  shows "py_truediv (2 ^ b) 100 = 5764607523034235 / 2 ^ (59 - b)"
proof -
  have e: "52 - (int b - 7) = int (59 - b)" "int b - 7 - 52 = - int (59 - b)"
    using assms by simp_all
  have "(2::real) ^ b * 2 ^ (59 - b) = 2 ^ 59"
    using assms by (simp add: power_add [symmetric])
  then have s: "of_int (2 ^ b) / of_int 100 * pow2 (int (59 - b)) = (2 ^ 59 / 100 :: real)"
    by (simp add: pow2_def)
  have p: "pow2 (- int (59 - b)) = 1 / 2 ^ (59 - b)"
    by (cases "59 - b = 0") (simp_all add: pow2_def)
  show ?thesis
    unfolding py_truediv_def quotient_exponent_leakage Let_def e s round_half_even_leakage p
    by simp
qed

lemma leakage_value_shift:
  assumes "b \<le> 59"
  shows "leakage_value b = 5764607523034235 div 2 ^ (59 - b)"
proof -
  have "(0::real) \<le> 5764607523034235 / 2 ^ (59 - b)" by simp
  then have "py_int (5764607523034235 / 2 ^ (59 - b)) = \<lfloor>(5764607523034235::real) / 2 ^ (59 - b)\<rfloor>"
    by (rule py_int_nonneg)
  also have "\<dots> = \<lfloor>real_of_int 5764607523034235 / real_of_int (2 ^ (59 - b))\<rfloor>" by simp
  also have "\<dots> = 5764607523034235 div 2 ^ (59 - b)" by (rule floor_divide_of_int_eq)
  finally show ?thesis by (simp add: leakage_value_def py_truediv_leakage [OF assms])
qed

lemma leakage_shift_table:
  "\<forall>k \<in> set [1..<59]. (5764607523034235::int) div 2 ^ k = 2 ^ (59 - k) div 100"
  by code_simp

lemma leakage_value_exact:
  assumes "1 \<le> b" and "b \<le> 58"
  shows "leakage_value b = 2 ^ b div 100"
proof -
  from assms have "59 - b \<in> set [1..<59]" by auto
  with leakage_shift_table
  have "(5764607523034235::int) div 2 ^ (59 - b) = 2 ^ (59 - (59 - b)) div 100" by blast
  moreover from assms have "59 - (59 - b) = b" by simp
  ultimately show ?thesis using leakage_value_shift [of b] assms by simp
qed

lemma leakage_value_60: "leakage_value 60 = 11529215046068470"
  by code_simp

text \<open>
  Claim C7, as stated: at every bit width \<open>b \<ge> 1\<close> every integer of the leakage artifact
  is \<open>floor (2^b / 100)\<close>, in exact integer arithmetic. The quotient is a double, rounded
  before it is truncated: at \<open>b = 60\<close> the artifact holds \<open>11529215046068470\<close>, and the
  exact floor is \<open>11529215046068469\<close>.
\<close>

theorem leakages_rounding_counterexample:
  "snn2mcu_leakages \<lparr>model_architecture = Some [2], number_of_layers = Some 1,
      weights = Map.empty\<rparr> 60
   = Inr (''memory_initialization_radix=10;'' @ [CHR 0x0A] @ ''memory_initialization_vector=''
          @ ''11529215046068470 11529215046068470;'')
   \<and> (2::int) ^ 60 div 100 = 11529215046068469"
proof -
  let ?d = "\<lparr>model_architecture = Some [2], number_of_layers = Some 1,
      weights = Map.empty :: string \<rightharpoonup> pyfloat list\<rparr>"
  have h1: "number_of_layers ?d = Some 1" by simp
  have h2: "model_architecture ?d = Some [2]" by simp
  have h3: "(1::nat) \<le> length [2 :: nat]" by simp
  have p: "py_str 11529215046068470 = ''11529215046068470''"
    by (simp add: py_str_def str_nat.simps digit_char_simps)
  have r: "replicate (sum_list (take 1 [2])) ''11529215046068470''
      = [''11529215046068470'', ''11529215046068470'']"
    by (simp add: numeral_eq_Suc)
  have "snn2mcu_leakages ?d 60 =
      Inr (coe_header @ join '' '' (replicate (sum_list (take 1 [2])) (py_str 11529215046068470)) @ '';'')"
    unfolding snn2mcu_leakages_def leakage_value_60 by (rule constant_artifact_eq [OF h1 h2 h3])
  also have "\<dots> = Inr (''memory_initialization_radix=10;'' @ [CHR 0x0A]
      @ ''memory_initialization_vector='' @ ''11529215046068470 11529215046068470;'')"
    unfolding p r coe_header_def by simp
  finally show ?thesis by simp
qed

text \<open>
  Claim C7, amended. For a table and a bit width \<open>1 \<le> b \<le> 58\<close>, every integer of the
  leakage artifact is \<open>floor (2^b / 100)\<close>, one for every neuron, under the header and in
  the grammar of the thresholds artifact.
\<close>

theorem leakages_artifact:
  assumes "number_of_layers d = Some nl" and "model_architecture d = Some arch"
    and "nl \<le> length arch" and "1 \<le> b" and "b \<le> 58"
  shows "snn2mcu_leakages d b =
           Inr (''memory_initialization_radix=10;'' @ [CHR 0x0A] @ ''memory_initialization_vector=''
                @ join '' '' (replicate (sum_list (take nl arch)) (py_str (2 ^ b div 100))) @ '';'')"
  using constant_artifact_eq [OF assms(1-3)] leakage_value_exact [OF assms(4,5)]
  by (simp add: snn2mcu_leakages_def coe_header_def)

theorem leakages_artifact_witness:
  "snn2mcu_leakages \<lparr>model_architecture = Some [3, 2, 1], number_of_layers = Some 3,
      weights = Map.empty\<rparr> 8
   = Inr (''memory_initialization_radix=10;'' @ [CHR 0x0A] @ ''memory_initialization_vector=''
          @ ''2 2 2 2 2 2;'')"
proof -
  let ?d = "\<lparr>model_architecture = Some [3, 2, 1], number_of_layers = Some 3,
      weights = Map.empty :: string \<rightharpoonup> pyfloat list\<rparr>"
  have h1: "number_of_layers ?d = Some 3" by simp
  have h2: "model_architecture ?d = Some [3, 2, 1]" by simp
  have h3: "(3::nat) \<le> length [3, 2, 1 :: nat]" by simp
  have h4: "(1::nat) \<le> 8" by simp
  have h5: "(8::nat) \<le> 58" by simp
  have p: "py_str (2 ^ 8 div 100) = ''2''"
    by (simp add: py_str_def str_nat.simps digit_char_simps)
  have r: "replicate (sum_list (take 3 [3, 2, 1])) ''2'' = [''2'', ''2'', ''2'', ''2'', ''2'', ''2'']"
    by (simp add: numeral_eq_Suc)
  have "snn2mcu_leakages ?d 8 =
      Inr (''memory_initialization_radix=10;'' @ [CHR 0x0A] @ ''memory_initialization_vector=''
           @ join '' '' (replicate (sum_list (take 3 [3, 2, 1])) (py_str (2 ^ 8 div 100))) @ '';'')"
    by (rule leakages_artifact [OF h1 h2 h3 h4 h5])
  also have "\<dots> = Inr (''memory_initialization_radix=10;'' @ [CHR 0x0A]
      @ ''memory_initialization_vector='' @ ''2 2 2 2 2 2;'')"
    unfolding p r by simp
  finally show ?thesis .
qed

section \<open>The extractor: properties\<close>

subsection \<open>Decimal texts and the keys of the dictionary\<close>

lemma is_digit_digit_char: "d < 10 \<Longrightarrow> is_digit (digit_char d)"
  by (simp add: is_digit_def digit_char_def)

lemma digit_val_digit_char: "d < 10 \<Longrightarrow> digit_val (digit_char d) = d"
  by (simp add: digit_val_def digit_char_def)

lemma str_nat_digits: "\<forall>c \<in> set (str_nat n). is_digit c"
proof (induction n rule: str_nat.induct)
  case (1 n)
  show ?case
  proof (cases "n < 10")
    case True
    then show ?thesis by (simp add: str_nat.simps [of n] is_digit_digit_char)
  next
    case False
    with 1 show ?thesis by (simp add: str_nat.simps [of n] is_digit_digit_char)
  qed
qed

lemma int_of_digits_snoc:
  "int_of_digits (ds @ [c]) = 10 * int_of_digits ds + digit_val c"
  by (simp add: int_of_digits_def)

lemma int_of_digits_str_nat: "int_of_digits (str_nat n) = n"
proof (induction n rule: str_nat.induct)
  case (1 n)
  show ?case
  proof (cases "n < 10")
    case True
    then show ?thesis
      by (simp add: str_nat.simps [of n] int_of_digits_def digit_val_digit_char)
  next
    case False
    with 1 have "int_of_digits (str_nat (n div 10)) = n div 10" by simp
    with False show ?thesis
      by (simp add: str_nat.simps [of n] int_of_digits_snoc digit_val_digit_char)
  qed
qed

lemma str_nat_inj: "str_nat m = str_nat n \<Longrightarrow> m = n"
  by (metis int_of_digits_str_nat)

lemma takeWhile_str_nat:
  "\<not> is_digit c \<Longrightarrow> takeWhile is_digit (str_nat n @ c # cs) = str_nat n"
  using str_nat_digits [of n] by (simp add: takeWhile_append2)

lemma weight_key_inj [simp]:
  "weight_key l n = weight_key l' n' \<longleftrightarrow> l = l' \<and> n = n'"
proof
  assume eq: "weight_key l n = weight_key l' n'"
  have u: "\<not> is_digit CHR ''_''" by (simp add: is_digit_def)
  from eq have a: "str_nat l @ CHR ''_'' # (CHR ''n'' # str_nat n @ ''_w'')
      = str_nat l' @ CHR ''_'' # (CHR ''n'' # str_nat n' @ ''_w'')"
    by (simp add: weight_key_def)
  then have "takeWhile is_digit (str_nat l @ CHR ''_'' # (CHR ''n'' # str_nat n @ ''_w''))
      = takeWhile is_digit (str_nat l' @ CHR ''_'' # (CHR ''n'' # str_nat n' @ ''_w''))"
    by (rule arg_cong)
  then have l: "str_nat l = str_nat l'" by (simp only: takeWhile_str_nat [OF u])
  with a have "str_nat n = str_nat n'" by simp
  with l show "l = l' \<and> n = n'" by (simp add: str_nat_inj)
next
  assume "l = l' \<and> n = n'"
  then show "weight_key l n = weight_key l' n'" by simp
qed

subsection \<open>The dictionary under the walks\<close>

lemma append_or_init_fields [simp]:
  "model_architecture (append_or_init k x d) = model_architecture d"
  "number_of_layers (append_or_init k x d) = number_of_layers d"
  by (simp_all add: append_or_init_def)

lemma append_or_init_other [simp]:
  "k' \<noteq> k \<Longrightarrow> weights (append_or_init k x d) k' = weights d k'"
  by (simp add: append_or_init_def)

lemma append_or_init_same:
  "weights (append_or_init k x d) k = Some ((case weights d k of None \<Rightarrow> [] | Some xs \<Rightarrow> xs) @ [x])"
  by (simp add: append_or_init_def split: option.splits)

lemma walk_weights_fields:
  "walk_weights k ws d = Inr d' \<Longrightarrow>
     model_architecture d' = model_architecture d \<and> number_of_layers d' = number_of_layers d"
  by (induction ws arbitrary: d) (auto split: sum.splits)

lemma walk_weights_other:
  "walk_weights k ws d = Inr d' \<Longrightarrow> k' \<noteq> k \<Longrightarrow> weights d' k' = weights d k'"
  by (induction ws arbitrary: d) (auto split: sum.splits)

lemma walk_weights_length:
  "walk_weights k ws d = Inr d' \<Longrightarrow>
     length (case weights d' k of None \<Rightarrow> [] | Some xs \<Rightarrow> xs)
       = length (case weights d k of None \<Rightarrow> [] | Some xs \<Rightarrow> xs) + length ws"
proof (induction ws arbitrary: d)
  case Nil
  then show ?case by simp
next
  case (Cons w ws)
  from Cons.prems obtain x where x: "item w = Inr x"
    and r: "walk_weights k ws (append_or_init k x d) = Inr d'"
    by (auto split: sum.splits)
  from Cons.IH [OF r] show ?case by (simp add: append_or_init_same)
qed

lemma walk_weights_scalars:
  "walk_weights k (map Scalar row) d =
     Inr (if row = [] then d
          else d\<lparr>weights := (weights d)(k \<mapsto> (case weights d k of None \<Rightarrow> [] | Some xs \<Rightarrow> xs) @ row)\<rparr>)"
proof (induction row arbitrary: d)
  case Nil
  show ?case by simp
next
  case (Cons x row)
  show ?case
    by (cases "weights d k") (simp_all add: Cons.IH append_or_init_def)
qed

lemma seed_architecture_fields:
  "seed_architecture layer i neuron d = Inr d1 \<Longrightarrow>
     weights d1 = weights d \<and> number_of_layers d1 = number_of_layers d"
  by (auto simp: seed_architecture_def split: sum.splits if_splits)

lemma seed_architecture_skip:
  "layer \<noteq> 1 \<or> 0 < i \<Longrightarrow> seed_architecture layer i neuron d = Inr d"
  by (auto simp: seed_architecture_def)

lemma walk_neurons_Cons:
  assumes "walk_neurons layer i (neuron # ns) d = Inr d'"
  obtains d1 ws d2 where "seed_architecture layer i neuron d = Inr d1"
    and "iter neuron = Inr ws"
    and "walk_weights (weight_key layer i) ws d1 = Inr d2"
    and "walk_neurons layer (i + 1) ns d2 = Inr d'"
  using assms by (auto split: sum.splits)

lemma walk_neurons_layers:
  "walk_neurons layer i ns d = Inr d' \<Longrightarrow> number_of_layers d' = number_of_layers d"
proof (induction ns arbitrary: i d)
  case Nil
  then show ?case by simp
next
  case (Cons neuron ns)
  from Cons.prems obtain d1 ws d2 where
    s: "seed_architecture layer i neuron d = Inr d1"
    and w: "walk_weights (weight_key layer i) ws d1 = Inr d2"
    and r: "walk_neurons layer (i + 1) ns d2 = Inr d'"
    by (rule walk_neurons_Cons)
  from Cons.IH [OF r] walk_weights_fields [OF w] seed_architecture_fields [OF s]
  show ?case by simp
qed

lemma walk_neurons_architecture:
  "walk_neurons layer i ns d = Inr d' \<Longrightarrow> layer \<noteq> 1 \<or> 0 < i \<Longrightarrow>
     model_architecture d' = model_architecture d"
proof (induction ns arbitrary: i d)
  case Nil
  then show ?case by simp
next
  case (Cons neuron ns)
  from Cons.prems(1) obtain d1 ws d2 where
    s: "seed_architecture layer i neuron d = Inr d1"
    and w: "walk_weights (weight_key layer i) ws d1 = Inr d2"
    and r: "walk_neurons layer (i + 1) ns d2 = Inr d'"
    by (rule walk_neurons_Cons)
  from s Cons.prems(2) have d1: "d1 = d" by (simp add: seed_architecture_skip)
  from Cons.prems(2) have "layer \<noteq> 1 \<or> 0 < i + 1" by simp
  from Cons.IH [OF r this] walk_weights_fields [OF w] d1 show ?case by simp
qed

lemma walk_neurons_other:
  "walk_neurons layer i ns d = Inr d' \<Longrightarrow> l \<noteq> layer \<or> n < i \<Longrightarrow>
     weights d' (weight_key l n) = weights d (weight_key l n)"
proof (induction ns arbitrary: i d)
  case Nil
  then show ?case by simp
next
  case (Cons neuron ns)
  from Cons.prems(1) obtain d1 ws d2 where
    s: "seed_architecture layer i neuron d = Inr d1"
    and w: "walk_weights (weight_key layer i) ws d1 = Inr d2"
    and r: "walk_neurons layer (i + 1) ns d2 = Inr d'"
    by (rule walk_neurons_Cons)
  from Cons.prems(2) have k: "weight_key l n \<noteq> weight_key layer i" by auto
  from Cons.prems(2) have "l \<noteq> layer \<or> n < i + 1" by auto
  from Cons.IH [OF r this] walk_weights_other [OF w k] seed_architecture_fields [OF s]
  show ?case by simp
qed

subsection \<open>The walk over the parameters\<close>

lemma dropWhile_finds_digit:
  "dropWhile (\<lambda>c. \<not> is_digit c) name = x # xs \<Longrightarrow> \<exists>c \<in> set name. is_digit c"
  by (metis dropWhile_eq_Nil_conv list.distinct(1))

lemma layer_of_no_digit:
  "layer_of name = Inl e \<longleftrightarrow> e = IndexError \<and> (\<forall>c \<in> set name. \<not> is_digit c)"
  by (auto simp: layer_of_def first_digit_run_def
      split: list.splits sum.splits dest: dropWhile_finds_digit)

lemma walk_parameters_weight:
  assumes "walk_parameters ((name, param) # rest) d = Inr d'" and "is_weight_name name"
  obtains layer neurons d1 arch where "layer_of name = Inr layer"
    and "iter param = Inr neurons"
    and "walk_neurons layer 0 neurons d = Inr d1"
    and "model_architecture d1 = Some arch"
    and "walk_parameters rest (d1\<lparr>model_architecture := Some (arch @ [length neurons])\<rparr>) = Inr d'"
  using assms by (auto split: sum.splits option.splits)

lemma walk_parameters_append:
  "walk_parameters (xs @ ys) d =
     (case walk_parameters xs d of Inl e \<Rightarrow> Inl e | Inr d1 \<Rightarrow> walk_parameters ys d1)"
proof (induction xs arbitrary: d)
  case Nil
  show ?case by simp
next
  case (Cons x xs)
  obtain name param where x: "x = (name, param)" by (cases x)
  show ?case unfolding x
    by (simp add: Cons.IH split: sum.splits option.splits)
qed

lemma walk_parameters_layers:
  "walk_parameters model d = Inr d' \<Longrightarrow> number_of_layers d' = number_of_layers d"
proof (induction model arbitrary: d)
  case Nil
  then show ?case by simp
next
  case (Cons x model)
  obtain name param where x: "x = (name, param)" by (cases x)
  show ?case
  proof (cases "is_weight_name name")
    case True
    from Cons.prems [unfolded x] True obtain layer neurons d1 arch where
      n: "walk_neurons layer 0 neurons d = Inr d1"
      and r: "walk_parameters model (d1\<lparr>model_architecture := Some (arch @ [length neurons])\<rparr>) = Inr d'"
      by (rule walk_parameters_weight)
    from Cons.IH [OF r] walk_neurons_layers [OF n] show ?thesis by simp
  next
    case False
    with Cons.prems x have "walk_parameters model d = Inr d'"
      by (auto split: sum.splits)
    then show ?thesis by (rule Cons.IH)
  qed
qed

lemma walk_parameters_other:
  "walk_parameters model d = Inr d' \<Longrightarrow>
   \<forall>(name, param) \<in> set model. is_weight_name name \<longrightarrow> layer_of name \<noteq> Inr l \<Longrightarrow>
     weights d' (weight_key l n) = weights d (weight_key l n)"
proof (induction model arbitrary: d)
  case Nil
  then show ?case by simp
next
  case (Cons x model)
  obtain name param where x: "x = (name, param)" by (cases x)
  from Cons.prems(2) have rest:
    "\<forall>(name, param) \<in> set model. is_weight_name name \<longrightarrow> layer_of name \<noteq> Inr l" by simp
  show ?case
  proof (cases "is_weight_name name")
    case True
    from Cons.prems(1) [unfolded x] True obtain layer neurons d1 arch where
      l: "layer_of name = Inr layer"
      and n: "walk_neurons layer 0 neurons d = Inr d1"
      and r: "walk_parameters model (d1\<lparr>model_architecture := Some (arch @ [length neurons])\<rparr>) = Inr d'"
      by (rule walk_parameters_weight)
    from Cons.prems(2) x True l have "l \<noteq> layer" by auto
    then have "weights d1 (weight_key l n) = weights d (weight_key l n)"
      using walk_neurons_other [OF n] by simp
    with Cons.IH [OF r rest] show ?thesis by simp
  next
    case False
    with Cons.prems(1) x have "walk_parameters model d = Inr d'"
      by (auto split: sum.splits)
    from Cons.IH [OF this rest] show ?thesis .
  qed
qed

subsection \<open>The loop of the input neurons\<close>

lemma input_neurons_fields [simp]:
  "model_architecture (input_neurons ns d) = model_architecture d"
  "number_of_layers (input_neurons ns d) = number_of_layers d"
  by (induction ns arbitrary: d) simp_all

lemma input_neurons_other:
  "l \<noteq> 0 \<or> n \<notin> set ns \<Longrightarrow>
     weights (input_neurons ns d) (weight_key l n) = weights d (weight_key l n)"
  by (induction ns arbitrary: d) auto

lemma input_neurons_fresh:
  "distinct ns \<Longrightarrow> n \<in> set ns \<Longrightarrow> weights d (weight_key 0 n) = None \<Longrightarrow>
     weights (input_neurons ns d) (weight_key 0 n) = Some [Finite float_0_9]"
proof (induction ns arbitrary: d)
  case Nil
  then show ?case by simp
next
  case (Cons m ns)
  show ?case
  proof (cases "n = m")
    case True
    with Cons.prems have "n \<notin> set ns" by simp
    then have "weights (input_neurons ns (append_or_init (weight_key 0 m) (Finite float_0_9) d)) (weight_key 0 n)
        = weights (append_or_init (weight_key 0 m) (Finite float_0_9) d) (weight_key 0 n)"
      by (simp add: input_neurons_other)
    with True Cons.prems(3) show ?thesis by (simp add: append_or_init_same)
  next
    case False
    with Cons.prems have "distinct ns" "n \<in> set ns"
      "weights (append_or_init (weight_key 0 m) (Finite float_0_9) d) (weight_key 0 n) = None"
      by simp_all
    from Cons.IH [OF this] show ?thesis by simp
  qed
qed

subsection \<open>The extractor as its two phases\<close>

lemma extractor_Inr:
  assumes "snn2mcu_param_dict_extractor model = Inr t"
  obtains d a0 arch where "walk_parameters model empty_dict = Inr d"
    and "model_architecture d = Some (a0 # arch)"
    and "t = input_neurons [0..<a0] (d\<lparr>number_of_layers := Some (Suc (length arch))\<rparr>)"
  using assms
  by (auto simp: snn2mcu_param_dict_extractor_def split: sum.splits option.splits list.splits)

lemma walk_parameters_first_weight:
  "walk_parameters model d = Inr d' \<Longrightarrow> model_architecture d = None \<Longrightarrow>
   model_architecture d' = Some a \<Longrightarrow>
     \<exists>name param. find (\<lambda>(name, param). is_weight_name name) model = Some (name, param)
       \<and> layer_of name = Inr 1"
proof (induction model arbitrary: d)
  case Nil
  then show ?case by simp
next
  case (Cons x model)
  obtain name param where x: "x = (name, param)" by (cases x)
  show ?case
  proof (cases "is_weight_name name")
    case True
    from Cons.prems(1) [unfolded x] True obtain layer neurons d1 arch where
      l: "layer_of name = Inr layer"
      and n: "walk_neurons layer 0 neurons d = Inr d1"
      and a: "model_architecture d1 = Some arch"
      by (rule walk_parameters_weight)
    have "layer = 1"
    proof (rule ccontr)
      assume "layer \<noteq> 1"
      then have "model_architecture d1 = model_architecture d"
        using walk_neurons_architecture [OF n] by simp
      with a Cons.prems(2) show False by simp
    qed
    with l True x show ?thesis by simp
  next
    case False
    with Cons.prems(1) x have "walk_parameters model d = Inr d'"
      by (auto split: sum.splits)
    from Cons.IH [OF this Cons.prems(2,3)] False x show ?thesis by simp
  qed
qed

text \<open>
  Claim C8. When the parameter sequence holds an entry whose name has no decimal digit,
  extraction fails and returns no table, whether or not that entry is a weight: the layer
  index is parsed from the name before the name is tested for \<open>weight\<close>. The walk stops at
  the first failing entry: the error is the \<open>IndexError\<close> of the malformed name, unless an
  entry before it has already raised.
\<close>

theorem malformed_name_aborts:
  assumes "\<forall>c \<in> set name. \<not> is_digit c"
  shows "snn2mcu_param_dict_extractor (pre @ (name, param) # post) =
           (case walk_parameters pre empty_dict of Inl e \<Rightarrow> Inl e | Inr d \<Rightarrow> Inl IndexError)
         \<and> snn2mcu_param_dict_extractor (pre @ (name, param) # post) \<noteq> Inr t"
proof -
  from assms have "layer_of name = Inl IndexError" by (simp add: layer_of_no_digit)
  then have step: "walk_parameters ((name, param) # post) d = Inl IndexError" for d by simp
  have "walk_parameters (pre @ (name, param) # post) empty_dict =
      (case walk_parameters pre empty_dict of Inl e \<Rightarrow> Inl e | Inr d \<Rightarrow> Inl IndexError)"
    by (simp only: walk_parameters_append step)
  then show ?thesis
    by (simp add: snn2mcu_param_dict_extractor_def split: sum.splits)
qed

theorem malformed_name_aborts_witness:
  "snn2mcu_param_dict_extractor [(''fc1.weight'', matrix [[Finite (1 / 2)]]), (''bias'', Tensor [Scalar (Finite 1)])]
     = Inl IndexError"
proof -
  have h: "\<forall>c \<in> set ''bias''. \<not> is_digit c" by (simp add: is_digit_def)
  have "\<not> isl (walk_parameters [(''fc1.weight'', matrix [[Finite (1 / 2)]])] empty_dict)"
    by code_simp
  then obtain d where "walk_parameters [(''fc1.weight'', matrix [[Finite (1 / 2)]])] empty_dict = Inr d"
    by (cases "walk_parameters [(''fc1.weight'', matrix [[Finite (1 / 2)]])] empty_dict") simp_all
  with malformed_name_aborts [OF h, of "[(''fc1.weight'', matrix [[Finite (1 / 2)]])]" "Tensor [Scalar (Finite 1)]" "[]"]
  show ?thesis by simp
qed

text \<open>
  Claim C10. Extraction returns a table only if the sequence has a weight-named parameter
  and the first of them has layer index 1; in every other case it raises. A returned table
  has a non-empty \<open>model_architecture\<close> and its length as \<open>number_of_layers\<close>.
\<close>

theorem table_needs_first_weight_of_layer_1:
  assumes "snn2mcu_param_dict_extractor model = Inr t"
  shows "\<exists>name param arch.
           find (\<lambda>(name, param). is_weight_name name) model = Some (name, param)
           \<and> layer_of name = Inr 1
           \<and> model_architecture t = Some arch \<and> arch \<noteq> []
           \<and> number_of_layers t = Some (length arch)"
proof -
  from assms obtain d a0 arch where w: "walk_parameters model empty_dict = Inr d"
    and a: "model_architecture d = Some (a0 # arch)"
    and t: "t = input_neurons [0..<a0] (d\<lparr>number_of_layers := Some (Suc (length arch))\<rparr>)"
    by (rule extractor_Inr)
  have "model_architecture empty_dict = None" by (simp add: empty_dict_def)
  from walk_parameters_first_weight [OF w this a] obtain name param where
    "find (\<lambda>(name, param). is_weight_name name) model = Some (name, param)"
    "layer_of name = Inr 1" by blast
  moreover from t a have "model_architecture t = Some (a0 # arch)"
    "number_of_layers t = Some (length (a0 # arch))" by simp_all
  ultimately show ?thesis by blast
qed

theorem table_needs_first_weight_of_layer_1_witness:
  "find (\<lambda>(name, param). is_weight_name name)
        [(''fc1.bias'', Tensor [Scalar (Finite 1)]), (''fc1.weight'', matrix [[Finite (1 / 2)]])]
     = Some (''fc1.weight'', matrix [[Finite (1 / 2)]])
   \<and> layer_of ''fc1.weight'' = Inr 1
   \<and> \<not> isl (snn2mcu_param_dict_extractor
              [(''fc1.bias'', Tensor [Scalar (Finite 1)]), (''fc1.weight'', matrix [[Finite (1 / 2)]])])"
proof -
  let ?m = "[(''fc1.bias'', Tensor [Scalar (Finite 1)]), (''fc1.weight'', matrix [[Finite (1 / 2)]])]"
  have s: "\<not> isl (snn2mcu_param_dict_extractor ?m)" by code_simp
  then obtain t where "snn2mcu_param_dict_extractor ?m = Inr t"
    by (cases "snn2mcu_param_dict_extractor ?m") simp_all
  from table_needs_first_weight_of_layer_1 [OF this] obtain name param where
    f: "find (\<lambda>(name, param). is_weight_name name) ?m = Some (name, param)"
    and l: "layer_of name = Inr 1" by blast
  have "find (\<lambda>(name, param). is_weight_name name) ?m = Some (''fc1.weight'', matrix [[Finite (1 / 2)]])"
    by code_simp
  with f l s show ?thesis by simp
qed

subsection \<open>Matrices under the walk\<close>

lemma seed_architecture_Tensor:
  "\<exists>d1. seed_architecture layer i (Tensor ts) d = Inr d1 \<and> weights d1 = weights d
     \<and> number_of_layers d1 = number_of_layers d
     \<and> model_architecture d1 =
          (if layer = 1 \<and> i = 0 then Some [length ts] else model_architecture d)"
  by (simp add: seed_architecture_def)

lemma walk_neurons_matrix:
  "\<exists>d'. walk_neurons layer i (map (\<lambda>row. Tensor (map Scalar row)) rows) d = Inr d'
     \<and> (\<forall>n. neuron_vector d' layer n =
            (if i \<le> n \<and> n < i + length rows then neuron_vector d layer n @ rows ! (n - i)
             else neuron_vector d layer n))
     \<and> (\<forall>n. weights d' (weight_key layer n) = None \<longleftrightarrow>
            weights d (weight_key layer n) = None \<and> (i \<le> n \<and> n < i + length rows \<longrightarrow> rows ! (n - i) = []))"
proof (induction rows arbitrary: i d)
  case Nil
  show ?case by auto
next
  case (Cons row rows)
  let ?k = "weight_key layer i"
  obtain d1 where s: "seed_architecture layer i (Tensor (map Scalar row)) d = Inr d1"
    and f: "weights d1 = weights d"
    using seed_architecture_Tensor [of layer i "map Scalar row" d] by blast
  let ?d2 = "if row = [] then d1
    else d1\<lparr>weights := (weights d1)(?k \<mapsto> (case weights d1 ?k of None \<Rightarrow> [] | Some xs \<Rightarrow> xs) @ row)\<rparr>"
  have w: "walk_weights ?k (map Scalar row) d1 = Inr ?d2" by (rule walk_weights_scalars)
  from Cons.IH [of "i + 1" ?d2] obtain d' where
    r: "walk_neurons layer (i + 1) (map (\<lambda>row. Tensor (map Scalar row)) rows) ?d2 = Inr d'"
    and v: "\<forall>n. neuron_vector d' layer n =
            (if i + 1 \<le> n \<and> n < i + 1 + length rows then neuron_vector ?d2 layer n @ rows ! (n - (i + 1))
             else neuron_vector ?d2 layer n)"
    and e: "\<forall>n. weights d' (weight_key layer n) = None \<longleftrightarrow>
            weights ?d2 (weight_key layer n) = None
            \<and> (i + 1 \<le> n \<and> n < i + 1 + length rows \<longrightarrow> rows ! (n - (i + 1)) = [])"
    by blast
  have v2: "neuron_vector ?d2 layer n = (if n = i then neuron_vector d layer n @ row else neuron_vector d layer n)" for n
    by (simp add: neuron_vector_def f)
  have e2: "weights ?d2 (weight_key layer n) = None \<longleftrightarrow>
      weights d (weight_key layer n) = None \<and> (n = i \<longrightarrow> row = [])" for n
    by (simp add: f)
  have "walk_neurons layer i (map (\<lambda>row. Tensor (map Scalar row)) (row # rows)) d = Inr d'"
    using s w r by simp
  moreover have "neuron_vector d' layer n =
            (if i \<le> n \<and> n < i + length (row # rows) then neuron_vector d layer n @ (row # rows) ! (n - i)
             else neuron_vector d layer n)" for n
  proof (cases "n = i")
    case True
    with v v2 show ?thesis by simp
  next
    case False
    with v v2 show ?thesis by (auto simp: nth_Cons' Suc_diff_Suc)
  qed
  moreover have "weights d' (weight_key layer n) = None \<longleftrightarrow>
            weights d (weight_key layer n) = None
            \<and> (i \<le> n \<and> n < i + length (row # rows) \<longrightarrow> (row # rows) ! (n - i) = [])" for n
  proof (cases "n = i")
    case True
    with e e2 show ?thesis by simp
  next
    case False
    with e e2 show ?thesis by (auto simp: nth_Cons' Suc_diff_Suc)
  qed
  ultimately show ?case by blast
qed

subsection \<open>The rows of a matrix in the table\<close>

lemma walk_parameters_rows:
  assumes "walk_parameters model d = Inr d'"
    and "distinct (map (\<lambda>(name, param). layer_of name)
                       (filter (\<lambda>(name, param). is_weight_name name) model))"
    and "(name, matrix rows) \<in> set model" and "is_weight_name name"
    and "layer_of name = Inr l"
    and "\<forall>n. weights d (weight_key l n) = None"
  shows "neuron_vector d' l n = (if n < length rows then rows ! n else [])
     \<and> (weights d' (weight_key l n) = None \<longleftrightarrow> (n < length rows \<longrightarrow> rows ! n = []))"
  using assms(1,2,3,6)
proof (induction model arbitrary: d)
  case Nil
  then show ?case by simp
next
  case (Cons x model)
  obtain nm p where x: "x = (nm, p)" by (cases x)
  from Cons.prems(2) have dist: "distinct (map (\<lambda>(name, param). layer_of name)
      (filter (\<lambda>(name, param). is_weight_name name) model))"
    by (simp split: if_splits)
  show ?case
  proof (cases "is_weight_name nm")
    case False
    with Cons.prems(1) x have w: "walk_parameters model d = Inr d'"
      by (auto split: sum.splits)
    from False Cons.prems(3) x assms(4) have "(name, matrix rows) \<in> set model" by auto
    from Cons.IH [OF w dist this Cons.prems(4)] show ?thesis .
  next
    case True
    from Cons.prems(1) [unfolded x] True obtain layer neurons d1 arch where
      l: "layer_of nm = Inr layer"
      and i: "iter p = Inr neurons"
      and n: "walk_neurons layer 0 neurons d = Inr d1"
      and r: "walk_parameters model (d1\<lparr>model_architecture := Some (arch @ [length neurons])\<rparr>) = Inr d'"
      by (rule walk_parameters_weight)
    let ?d1 = "d1\<lparr>model_architecture := Some (arch @ [length neurons])\<rparr>"
    show ?thesis
    proof (cases "layer = l")
      case False
      with Cons.prems(3) x l assms(5) have m: "(name, matrix rows) \<in> set model" by auto
      from False have "weights d1 (weight_key l k) = weights d (weight_key l k)" for k
        using walk_neurons_other [OF n, of l k] by simp
      with Cons.prems(4) have "\<forall>k. weights ?d1 (weight_key l k) = None" by simp
      from Cons.IH [OF r dist m this] show ?thesis .
    next
      case same: True
      from Cons.prems(2) x True l same have
        fresh: "Inr l \<notin> set (map (\<lambda>(name, param). layer_of name)
            (filter (\<lambda>(name, param). is_weight_name name) model))"
        by simp
      have tail: "\<forall>(name, param) \<in> set model. is_weight_name name \<longrightarrow> layer_of name \<noteq> Inr l"
      proof (clarify)
        fix a b assume "(a, b) \<in> set model" "is_weight_name a" "layer_of a = Inr l"
        then have "Inr l \<in> set (map (\<lambda>(name, param). layer_of name)
            (filter (\<lambda>(name, param). is_weight_name name) model))"
          by force
        with fresh show False by simp
      qed
      with Cons.prems(3) x assms(4,5) have p: "p = matrix rows" by auto
      with i have neurons: "neurons = map (\<lambda>row. Tensor (map Scalar row)) rows"
        by (simp add: matrix_def)
      from walk_neurons_matrix [of l 0 rows d] n same neurons have
        v: "neuron_vector d1 l n =
            (if n < length rows then neuron_vector d l n @ rows ! n else neuron_vector d l n)"
        and e: "weights d1 (weight_key l n) = None \<longleftrightarrow>
            weights d (weight_key l n) = None \<and> (n < length rows \<longrightarrow> rows ! n = [])"
        by auto
      from Cons.prems(4) have z: "neuron_vector d l n = []" by (simp add: neuron_vector_def)
      from walk_parameters_other [OF r tail, of n] have
        k: "weights d' (weight_key l n) = weights d1 (weight_key l n)" by simp
      from k v e z Cons.prems(4) show ?thesis by (simp add: neuron_vector_def)
    qed
  qed
qed

text \<open>
  Claim C9, as stated: a neuron whose weight vector disagrees in length with the other
  neurons of its layer makes extraction fail with an InconsistentFanIn error. The extractor
  has no such check. Two weight-named parameters of layer 1, of shapes 2x1 and 1x1, are
  appended neuron by neuron: the table is returned, neuron 0 of layer 1 with two weights
  and neuron 1 with one.
\<close>

theorem inconsistent_fan_in_counterexample:
  "\<not> isl (snn2mcu_param_dict_extractor
            [(''fc1.weight'', matrix [[Finite (1 / 2)], [Finite (1 / 4)]]), (''fc1b.weight'', matrix [[Finite (1 / 8)]])])
   \<and> weights (projr (snn2mcu_param_dict_extractor
            [(''fc1.weight'', matrix [[Finite (1 / 2)], [Finite (1 / 4)]]), (''fc1b.weight'', matrix [[Finite (1 / 8)]])]))
        ''l1_n0_w'' = Some [Finite (1 / 2), Finite (1 / 8)]
   \<and> weights (projr (snn2mcu_param_dict_extractor
            [(''fc1.weight'', matrix [[Finite (1 / 2)], [Finite (1 / 4)]]), (''fc1b.weight'', matrix [[Finite (1 / 8)]])]))
        ''l1_n1_w'' = Some [Finite (1 / 4)]"
  by code_simp

text \<open>
  Claim C9, amended. Whenever extraction succeeds on a sequence whose weight-named
  parameters have pairwise distinct layer indices, a weight-named matrix of a layer
  \<open>l \<noteq> 0\<close> whose rows all have the length \<open>c\<close> is recorded row by row: every weight vector
  recorded for layer \<open>l\<close> is the row of its neuron and has the length \<open>c\<close>, and for \<open>c > 0\<close>
  every row is recorded. So no weight vector of the layer disagrees in length.
\<close>

theorem distinct_layers_keep_fan_in:
  assumes "snn2mcu_param_dict_extractor model = Inr t"
    and "distinct (map (\<lambda>(name, param). layer_of name)
                       (filter (\<lambda>(name, param). is_weight_name name) model))"
    and "(name, matrix rows) \<in> set model" and "is_weight_name name"
    and "layer_of name = Inr l" and "l \<noteq> 0"
    and "\<forall>row \<in> set rows. length row = c"
  shows "(\<forall>n ws. weights t (weight_key l n) = Some ws \<longrightarrow>
            n < length rows \<and> ws = rows ! n \<and> length ws = c)
     \<and> (0 < c \<longrightarrow> (\<forall>n < length rows. weights t (weight_key l n) = Some (rows ! n)))"
proof -
  from assms(1) obtain d a0 arch where w: "walk_parameters model empty_dict = Inr d"
    and a: "model_architecture d = Some (a0 # arch)"
    and t: "t = input_neurons [0..<a0] (d\<lparr>number_of_layers := Some (Suc (length arch))\<rparr>)"
    by (rule extractor_Inr)
  have "\<forall>n. weights empty_dict (weight_key l n) = None" by (simp add: empty_dict_def)
  from walk_parameters_rows [OF w assms(2,3,4,5) this] have
    v: "neuron_vector d l n = (if n < length rows then rows ! n else [])"
    and e: "weights d (weight_key l n) = None \<longleftrightarrow> (n < length rows \<longrightarrow> rows ! n = [])" for n
    by simp_all
  from t assms(6) have k: "weights t (weight_key l n) = weights d (weight_key l n)" for n
    by (simp add: input_neurons_other)
  have recorded: "n < length rows \<and> ws = rows ! n \<and> length ws = c"
    if s: "weights t (weight_key l n) = Some ws" for n ws
  proof -
    from s k [of n] have d: "weights d (weight_key l n) = Some ws" by simp
    with e [of n] have n: "n < length rows" by auto
    from d have "neuron_vector d l n = ws" by (simp add: neuron_vector_def)
    with v [of n] n have r: "ws = rows ! n" by simp
    from n assms(7) have "length (rows ! n) = c" by simp
    with n r show ?thesis by simp
  qed
  have all: "weights t (weight_key l n) = Some (rows ! n)" if c: "0 < c" and n: "n < length rows" for n
  proof -
    from n have "rows ! n \<in> set rows" by simp
    with assms(7) have "length (rows ! n) = c" by blast
    with c have "rows ! n \<noteq> []" by auto
    with e [of n] n obtain ws where d: "weights d (weight_key l n) = Some ws" by auto
    then have "neuron_vector d l n = ws" by (simp add: neuron_vector_def)
    with v [of n] n d k [of n] show ?thesis by simp
  qed
  show ?thesis
  proof (rule conjI)
    show "\<forall>n ws. weights t (weight_key l n) = Some ws \<longrightarrow>
            n < length rows \<and> ws = rows ! n \<and> length ws = c"
      using recorded by (intro allI impI)
    show "0 < c \<longrightarrow> (\<forall>n < length rows. weights t (weight_key l n) = Some (rows ! n))"
      using all by (intro allI impI)
  qed
qed

theorem distinct_layers_keep_fan_in_witness:
  "weights (projr (snn2mcu_param_dict_extractor
       [(''fc1.weight'', matrix [[Finite (1 / 2), Finite (1 / 4)], [Finite (1 / 8), Finite (1 / 16)]]),
        (''fc1.bias'', Tensor [Scalar (Finite 1)])]))
     (weight_key 1 1) = Some [Finite (1 / 8), Finite (1 / 16)]"
proof -
  let ?m = "[(''fc1.weight'', matrix [[Finite (1 / 2), Finite (1 / 4)], [Finite (1 / 8), Finite (1 / 16)]]),
        (''fc1.bias'', Tensor [Scalar (Finite 1)])]"
  let ?rows = "[[Finite (1 / 2), Finite (1 / 4)], [Finite (1 / 8), Finite (1 / 16)]]"
  have "\<not> isl (snn2mcu_param_dict_extractor ?m)" by code_simp
  then obtain t where t: "snn2mcu_param_dict_extractor ?m = Inr t"
    by (cases "snn2mcu_param_dict_extractor ?m") simp_all
  have h2: "distinct (map (\<lambda>(name, param). layer_of name)
                       (filter (\<lambda>(name, param). is_weight_name name) ?m))"
    by code_simp
  have h3: "(''fc1.weight'', matrix ?rows) \<in> set ?m" by simp
  have h4: "is_weight_name ''fc1.weight''" by code_simp
  have h5: "layer_of ''fc1.weight'' = Inr 1" by code_simp
  have h6: "(1::nat) \<noteq> 0" by simp
  have h7: "\<forall>row \<in> set ?rows. length row = 2" by simp
  from distinct_layers_keep_fan_in [OF t h2 h3 h4 h5 h6 h7]
  have "(0::nat) < 2 \<longrightarrow> (\<forall>n < length ?rows. weights t (weight_key 1 n) = Some (?rows ! n))"
    by (rule conjunct2)
  then have "weights t (weight_key 1 1) = Some (?rows ! 1)" by simp
  with t show ?thesis by simp
qed

subsection \<open>The architecture\<close>

lemma len_iter:
  "len t = Inr k \<Longrightarrow> iter t = Inr ws \<Longrightarrow> k = length ws"
  by (cases t) simp_all

lemma walk_parameters_appends:
  "walk_parameters model d = Inr d' \<Longrightarrow> model_architecture d = Some a \<Longrightarrow>
   \<forall>(name, param) \<in> set model. is_weight_name name \<longrightarrow> layer_of name \<noteq> Inr 1 \<Longrightarrow>
     \<exists>ks. model_architecture d' = Some (a @ ks)
       \<and> map (\<lambda>(name, param). len param) (filter (\<lambda>(name, param). is_weight_name name) model)
           = map Inr ks"
proof (induction model arbitrary: d a)
  case Nil
  then show ?case by simp
next
  case (Cons x model)
  obtain nm p where x: "x = (nm, p)" by (cases x)
  from Cons.prems(3) have rest:
    "\<forall>(name, param) \<in> set model. is_weight_name name \<longrightarrow> layer_of name \<noteq> Inr 1" by simp
  show ?case
  proof (cases "is_weight_name nm")
    case False
    with Cons.prems(1) x have "walk_parameters model d = Inr d'"
      by (auto split: sum.splits)
    from Cons.IH [OF this Cons.prems(2) rest] False x show ?thesis by simp
  next
    case True
    from Cons.prems(1) [unfolded x] True obtain layer neurons d1 arch where
      l: "layer_of nm = Inr layer"
      and i: "iter p = Inr neurons"
      and n: "walk_neurons layer 0 neurons d = Inr d1"
      and a1: "model_architecture d1 = Some arch"
      and r: "walk_parameters model (d1\<lparr>model_architecture := Some (arch @ [length neurons])\<rparr>) = Inr d'"
      by (rule walk_parameters_weight)
    from Cons.prems(3) x True l have "layer \<noteq> 1" by auto
    with walk_neurons_architecture [OF n] a1 Cons.prems(2) have "arch = a" by simp
    then have "model_architecture (d1\<lparr>model_architecture := Some (arch @ [length neurons])\<rparr>)
        = Some (a @ [length neurons])" by simp
    from Cons.IH [OF r this rest] obtain ks where
      k: "model_architecture d' = Some ((a @ [length neurons]) @ ks)"
      and m: "map (\<lambda>(name, param). len param) (filter (\<lambda>(name, param). is_weight_name name) model)
           = map Inr ks" by blast
    from i have "len p = Inr (length neurons)" by (cases p) simp_all
    with k m True x have "model_architecture d' = Some (a @ (length neurons # ks))
      \<and> map (\<lambda>(name, param). len param) (filter (\<lambda>(name, param). is_weight_name name) (x # model))
           = map Inr (length neurons # ks)" by simp
    then show ?thesis by blast
  qed
qed

lemma walk_parameters_seed:
  assumes "walk_parameters model d = Inr d'" and "model_architecture d = None"
    and "model_architecture d' = Some arch"
  shows "\<exists>pre name neuron ns post d1 ws.
     model = pre @ (name, Tensor (neuron # ns)) # post
     \<and> (\<forall>(nm, p) \<in> set pre. \<not> is_weight_name nm)
     \<and> is_weight_name name \<and> layer_of name = Inr 1
     \<and> iter neuron = Inr ws
     \<and> walk_neurons 1 0 (neuron # ns) d = Inr d1
     \<and> model_architecture d1 = Some [length ws]
     \<and> length (neuron_vector d1 1 0) = length (neuron_vector d 1 0) + length ws
     \<and> walk_parameters post (d1\<lparr>model_architecture := Some [length ws, Suc (length ns)]\<rparr>) = Inr d'"
  using assms
proof (induction model arbitrary: d)
  case Nil
  then show ?case by simp
next
  case (Cons x model)
  obtain nm p where x: "x = (nm, p)" by (cases x)
  show ?case
  proof (cases "is_weight_name nm")
    case False
    with Cons.prems(1) x have "walk_parameters model d = Inr d'"
      by (auto split: sum.splits)
    from Cons.IH [OF this Cons.prems(2,3)] obtain pre name neuron ns post d1 ws where
      "model = pre @ (name, Tensor (neuron # ns)) # post"
      "\<forall>(nm, p) \<in> set pre. \<not> is_weight_name nm"
      "is_weight_name name \<and> layer_of name = Inr 1
       \<and> iter neuron = Inr ws
       \<and> walk_neurons 1 0 (neuron # ns) d = Inr d1
       \<and> model_architecture d1 = Some [length ws]
       \<and> length (neuron_vector d1 1 0) = length (neuron_vector d 1 0) + length ws
       \<and> walk_parameters post (d1\<lparr>model_architecture := Some [length ws, Suc (length ns)]\<rparr>) = Inr d'"
      by blast
    with False x have "x # model = (x # pre) @ (name, Tensor (neuron # ns)) # post
      \<and> (\<forall>(nm, p) \<in> set (x # pre). \<not> is_weight_name nm)
      \<and> is_weight_name name \<and> layer_of name = Inr 1
       \<and> iter neuron = Inr ws
       \<and> walk_neurons 1 0 (neuron # ns) d = Inr d1
       \<and> model_architecture d1 = Some [length ws]
       \<and> length (neuron_vector d1 1 0) = length (neuron_vector d 1 0) + length ws
       \<and> walk_parameters post (d1\<lparr>model_architecture := Some [length ws, Suc (length ns)]\<rparr>) = Inr d'"
      by simp
    then show ?thesis
      by (intro exI [where x = "x # pre"] exI [where x = name] exI [where x = neuron]
          exI [where x = ns] exI [where x = post] exI [where x = d1] exI [where x = ws])
  next
    case True
    from Cons.prems(1) [unfolded x] True obtain layer neurons d1 a1 where
      l: "layer_of nm = Inr layer"
      and i: "iter p = Inr neurons"
      and n: "walk_neurons layer 0 neurons d = Inr d1"
      and a1: "model_architecture d1 = Some a1"
      and r: "walk_parameters model (d1\<lparr>model_architecture := Some (a1 @ [length neurons])\<rparr>) = Inr d'"
      by (rule walk_parameters_weight)
    have layer: "layer = 1"
    proof (rule ccontr)
      assume "layer \<noteq> 1"
      then have "model_architecture d1 = model_architecture d"
        using walk_neurons_architecture [OF n] by simp
      with a1 Cons.prems(2) show False by simp
    qed
    from n a1 Cons.prems(2) obtain neuron ns where ne: "neurons = neuron # ns"
      by (cases neurons) auto
    with i have p: "p = Tensor (neuron # ns)" by (cases p) simp_all
    from n [unfolded ne layer] obtain s1 ws d2 where
      s: "seed_architecture 1 0 neuron d = Inr s1"
      and it: "iter neuron = Inr ws"
      and w: "walk_weights (weight_key 1 0) ws s1 = Inr d2"
      and rn: "walk_neurons 1 (0 + 1) ns d2 = Inr d1"
      by (rule walk_neurons_Cons)
    from s obtain k where k: "len neuron = Inr k" and s1: "s1 = d\<lparr>model_architecture := Some [k]\<rparr>"
      by (auto simp: seed_architecture_def split: sum.splits)
    from len_iter [OF k it] have kw: "k = length ws" .
    from walk_weights_fields [OF w] s1 kw have "model_architecture d2 = Some [length ws]" by simp
    with walk_neurons_architecture [OF rn] have ad1: "model_architecture d1 = Some [length ws]"
      by simp
    with a1 have a1': "a1 = [length ws]" by simp
    from walk_weights_length [OF w] s1
    have "length (neuron_vector d2 1 0) = length (neuron_vector d 1 0) + length ws"
      by (simp add: neuron_vector_def)
    moreover from walk_neurons_other [OF rn, of 1 0] have "neuron_vector d1 1 0 = neuron_vector d2 1 0"
      by (simp add: neuron_vector_def)
    ultimately have v: "length (neuron_vector d1 1 0) = length (neuron_vector d 1 0) + length ws"
      by simp
    from r a1' ne have "walk_parameters model
        (d1\<lparr>model_architecture := Some [length ws, Suc (length ns)]\<rparr>) = Inr d'" by simp
    with x p True l layer it n ne ad1 v have
      "x # model = [] @ (nm, Tensor (neuron # ns)) # model
      \<and> (\<forall>(nm, p) \<in> set []. \<not> is_weight_name nm)
      \<and> is_weight_name nm \<and> layer_of nm = Inr 1
       \<and> iter neuron = Inr ws
       \<and> walk_neurons 1 0 (neuron # ns) d = Inr d1
       \<and> model_architecture d1 = Some [length ws]
       \<and> length (neuron_vector d1 1 0) = length (neuron_vector d 1 0) + length ws
       \<and> walk_parameters model (d1\<lparr>model_architecture := Some [length ws, Suc (length ns)]\<rparr>) = Inr d'"
      by simp
    then show ?thesis
      by (intro exI [where x = "[]"] exI [where x = nm] exI [where x = neuron]
          exI [where x = ns] exI [where x = model] exI [where x = d1] exI [where x = ws])
  qed
qed

lemma walk_parameters_seedE:
  assumes "walk_parameters model d = Inr d'" and "model_architecture d = None"
    and "model_architecture d' = Some arch"
  obtains pre name neuron ns post d1 ws where
    "model = pre @ (name, Tensor (neuron # ns)) # post"
    and "\<forall>(nm, p) \<in> set pre. \<not> is_weight_name nm"
    and "is_weight_name name" and "layer_of name = Inr 1"
    and "iter neuron = Inr ws"
    and "walk_neurons 1 0 (neuron # ns) d = Inr d1"
    and "model_architecture d1 = Some [length ws]"
    and "length (neuron_vector d1 1 0) = length (neuron_vector d 1 0) + length ws"
    and "walk_parameters post (d1\<lparr>model_architecture := Some [length ws, Suc (length ns)]\<rparr>) = Inr d'"
  using walk_parameters_seed [OF assms] by (elim exE conjE) (rule that)

subsection \<open>The input layer\<close>

text \<open>
  Claim C5, as stated: whenever extraction succeeds, layer 0 holds
  \<open>model_architecture[0]\<close> vectors, each the single weight 0.9, and
  \<open>model_architecture[0]\<close> is the number of weights of neuron 0 of layer 1. It fails when
  weight-named parameters share the layer index 1 or carry the layer index 0: here
  \<open>l1_n0_w\<close> has two weights while \<open>model_architecture[0]\<close> is 1, and \<open>l0_n0_w\<close> holds a
  weight of the model before the 0.9.
\<close>

theorem input_layer_counterexample:
  "\<not> isl (snn2mcu_param_dict_extractor
        [(''a1.weight'', matrix [[Finite (1 / 2)]]), (''b1.weight'', matrix [[Finite (1 / 4)]]),
         (''c0.weight'', matrix [[Finite (1 / 8)]])])
   \<and> model_architecture (projr (snn2mcu_param_dict_extractor
        [(''a1.weight'', matrix [[Finite (1 / 2)]]), (''b1.weight'', matrix [[Finite (1 / 4)]]),
         (''c0.weight'', matrix [[Finite (1 / 8)]])])) = Some [1, 1, 1]
   \<and> weights (projr (snn2mcu_param_dict_extractor
        [(''a1.weight'', matrix [[Finite (1 / 2)]]), (''b1.weight'', matrix [[Finite (1 / 4)]]),
         (''c0.weight'', matrix [[Finite (1 / 8)]])])) ''l1_n0_w'' = Some [Finite (1 / 2), Finite (1 / 4)]
   \<and> weights (projr (snn2mcu_param_dict_extractor
        [(''a1.weight'', matrix [[Finite (1 / 2)]]), (''b1.weight'', matrix [[Finite (1 / 4)]]),
         (''c0.weight'', matrix [[Finite (1 / 8)]])])) ''l0_n0_w'' = Some [Finite (1 / 8), Finite float_0_9]"
  by code_simp

text \<open>
  Claim C5, amended. Whenever extraction succeeds on a sequence in which no weight-named
  parameter has the layer index 0 and at most one has the layer index 1: the walk over the
  parameters leaves layer 0 empty, and the loop after it gives the table exactly
  \<open>model_architecture[0]\<close> vectors of layer 0, each the single weight 0.9; and
  \<open>model_architecture[0]\<close> is the number of weights recorded for neuron 0 of layer 1.
\<close>

theorem input_layer_synthesized:
  assumes "snn2mcu_param_dict_extractor model = Inr t"
    and "\<forall>(name, param) \<in> set model. is_weight_name name \<longrightarrow> layer_of name \<noteq> Inr 0"
    and "length (filter (\<lambda>(name, param). is_weight_name name \<and> layer_of name = Inr 1) model) \<le> 1"
  shows "\<exists>d arch. walk_parameters model empty_dict = Inr d
           \<and> (\<forall>n. weights d (weight_key 0 n) = None)
           \<and> model_architecture t = Some arch \<and> arch \<noteq> []
           \<and> (\<forall>n. weights t (weight_key 0 n) = (if n < arch ! 0 then Some [Finite float_0_9] else None))
           \<and> arch ! 0 = length (neuron_vector t 1 0)"
proof -
  from assms(1) obtain d a0 arch where w: "walk_parameters model empty_dict = Inr d"
    and a: "model_architecture d = Some (a0 # arch)"
    and t: "t = input_neurons [0..<a0] (d\<lparr>number_of_layers := Some (Suc (length arch))\<rparr>)"
    by (rule extractor_Inr)
  let ?d = "d\<lparr>number_of_layers := Some (Suc (length arch))\<rparr>"
  have e: "weights empty_dict k = None" for k by (simp add: empty_dict_def)
  have z: "weights d (weight_key 0 n) = None" for n
    using walk_parameters_other [OF w assms(2), of n] e by simp
  have l0: "weights t (weight_key 0 n) = (if n < a0 then Some [Finite float_0_9] else None)" for n
  proof (cases "n < a0")
    case True
    then have "n \<in> set [0..<a0]" by simp
    moreover have "weights ?d (weight_key 0 n) = None" using z by simp
    ultimately have "weights (input_neurons [0..<a0] ?d) (weight_key 0 n) = Some [Finite float_0_9]"
      using input_neurons_fresh [of "[0..<a0]" n ?d] by simp
    with True t show ?thesis by simp
  next
    case False
    then have "weights (input_neurons [0..<a0] ?d) (weight_key 0 n) = weights ?d (weight_key 0 n)"
      by (simp add: input_neurons_other)
    with False t z show ?thesis by simp
  qed
  have m: "model_architecture empty_dict = None" by (simp add: empty_dict_def)
  from w m a obtain pre name neuron ns post d1 ws where
    model: "model = pre @ (name, Tensor (neuron # ns)) # post"
    and "\<forall>(nm, p) \<in> set pre. \<not> is_weight_name nm"
    and name: "is_weight_name name" "layer_of name = Inr 1"
    and "iter neuron = Inr ws"
    and "walk_neurons 1 0 (neuron # ns) empty_dict = Inr d1"
    and "model_architecture d1 = Some [length ws]"
    and v: "length (neuron_vector d1 1 0) = length (neuron_vector empty_dict 1 0) + length ws"
    and r: "walk_parameters post (d1\<lparr>model_architecture := Some [length ws, Suc (length ns)]\<rparr>) = Inr d"
    by (rule walk_parameters_seedE)
  let ?d1 = "d1\<lparr>model_architecture := Some [length ws, Suc (length ns)]\<rparr>"
  from assms(3) model name
  have "filter (\<lambda>(name, param). is_weight_name name \<and> layer_of name = Inr 1) post = []"
    by simp
  then have post: "\<forall>(name, param) \<in> set post. is_weight_name name \<longrightarrow> layer_of name \<noteq> Inr 1"
    by (auto simp: filter_empty_conv)
  have "model_architecture ?d1 = Some [length ws, Suc (length ns)]" by simp
  from walk_parameters_appends [OF r this post] a have a0: "a0 = length ws" by auto
  from walk_parameters_other [OF r post, of 0] have "neuron_vector d 1 0 = neuron_vector d1 1 0"
    by (simp add: neuron_vector_def)
  moreover have "neuron_vector t 1 0 = neuron_vector d 1 0"
    using t by (simp add: neuron_vector_def input_neurons_other)
  moreover have "neuron_vector empty_dict 1 0 = []" by (simp add: neuron_vector_def e)
  ultimately have f: "length (neuron_vector t 1 0) = a0" using v a0 by simp
  from t a have "model_architecture t = Some (a0 # arch)" by simp
  with w z l0 f have "walk_parameters model empty_dict = Inr d
           \<and> (\<forall>n. weights d (weight_key 0 n) = None)
           \<and> model_architecture t = Some (a0 # arch) \<and> a0 # arch \<noteq> []
           \<and> (\<forall>n. weights t (weight_key 0 n) = (if n < (a0 # arch) ! 0 then Some [Finite float_0_9] else None))
           \<and> (a0 # arch) ! 0 = length (neuron_vector t 1 0)"
    by simp
  then show ?thesis by (intro exI [where x = d] exI [where x = "a0 # arch"])
qed

theorem input_layer_synthesized_witness:
  "model_architecture (projr (snn2mcu_param_dict_extractor
      [(''fc1.weight'', matrix [[Finite (1 / 2), Finite (1 / 4)]]), (''fc1.bias'', Tensor [Scalar (Finite 1)])])) = Some [2, 1]
   \<and> weights (projr (snn2mcu_param_dict_extractor
      [(''fc1.weight'', matrix [[Finite (1 / 2), Finite (1 / 4)]]), (''fc1.bias'', Tensor [Scalar (Finite 1)])])) (weight_key 0 1)
       = Some [Finite float_0_9]
   \<and> weights (projr (snn2mcu_param_dict_extractor
      [(''fc1.weight'', matrix [[Finite (1 / 2), Finite (1 / 4)]]), (''fc1.bias'', Tensor [Scalar (Finite 1)])])) (weight_key 0 2)
       = None"
proof -
  let ?m = "[(''fc1.weight'', matrix [[Finite (1 / 2), Finite (1 / 4)]]), (''fc1.bias'', Tensor [Scalar (Finite 1)])]"
  have "\<not> isl (snn2mcu_param_dict_extractor ?m)" by code_simp
  then obtain t where t: "snn2mcu_param_dict_extractor ?m = Inr t"
    by (cases "snn2mcu_param_dict_extractor ?m") simp_all
  have h2: "\<forall>(name, param) \<in> set ?m. is_weight_name name \<longrightarrow> layer_of name \<noteq> Inr 0"
    by code_simp
  have h3: "length (filter (\<lambda>(name, param). is_weight_name name \<and> layer_of name = Inr 1) ?m) \<le> 1"
    by code_simp
  have a: "model_architecture (projr (snn2mcu_param_dict_extractor ?m)) = Some [2, 1]"
    by code_simp
  from input_layer_synthesized [OF t h2 h3] obtain arch where
    "model_architecture t = Some arch"
    "\<forall>n. weights t (weight_key 0 n) = (if n < arch ! 0 then Some [Finite float_0_9] else None)"
    by blast
  with a t show ?thesis by simp
qed

subsection \<open>The table of a layered network\<close>

lemma len_matrix: "len (matrix m) = Inr (length m)"
  by (simp add: matrix_def)

lemma map_Inr_inj: "map Inr xs = map Inr ys \<Longrightarrow> xs = ys"
  by (simp add: inj_map_eq_map)

text \<open>
  Claim C3, as stated: when the weight-named parameters are the matrices of the layers
  \<open>1..L\<close> in order, with matching dimensions, every layer \<open>l \<ge> 1\<close> of the table has
  \<open>model_architecture[l]\<close> weight vectors. A matrix without columns records no vector: for a
  single layer of shape 2x0 the table has \<open>model_architecture = [0, 2]\<close> and no weight
  vector at all.
\<close>

theorem zero_column_layer_counterexample:
  "snn2mcu_param_dict_extractor [(''fc1.weight'', matrix [[], []])] =
     Inr \<lparr>model_architecture = Some [0, 2], number_of_layers = Some 2, weights = Map.empty\<rparr>"
proof -
  have "layer_of ''fc1.weight'' = Inr 1" by code_simp
  moreover have "is_weight_name ''fc1.weight''" by code_simp
  ultimately show ?thesis
    by (simp add: snn2mcu_param_dict_extractor_def matrix_def seed_architecture_def empty_dict_def)
qed

text \<open>
  Claim C3, amended. Let the weight-named parameters of the sequence be the matrices \<open>ms\<close>
  of the layers \<open>1..L\<close>, in this order, each with at least one column: every row of the first
  with \<open>c0\<close> weights and every row of a later one with as many weights as the matrix before
  it has rows. Then the table that the extractor builds has
  \<open>model_architecture = c0, rows of ms\<close>, \<open>number_of_layers\<close> is its length, and for every layer
  \<open>l \<ge> 1\<close> exactly the neurons \<open>0..model_architecture[l]-1\<close> have a weight vector, each of
  length \<open>model_architecture[l-1]\<close>.
\<close>

theorem layered_table_structure:
  fixes ms :: "pyfloat list list list"
  assumes "snn2mcu_param_dict_extractor model = Inr t"
    and "map (\<lambda>(name, param). layer_of name) (filter (\<lambda>(name, param). is_weight_name name) model)
           = map Inr [1..<Suc (length ms)]"
    and "map snd (filter (\<lambda>(name, param). is_weight_name name) model) = map matrix ms"
    and "\<forall>i < length ms. \<forall>row \<in> set (ms ! i).
           row \<noteq> [] \<and> length row = (c0 # map length ms) ! i"
  shows "\<exists>arch nl. model_architecture t = Some arch \<and> number_of_layers t = Some nl
           \<and> length arch = nl \<and> arch = c0 # map length ms
           \<and> (\<forall>l. 1 \<le> l \<and> l < nl \<longrightarrow>
                 card {n. weights t (weight_key l n) \<noteq> None} = arch ! l
                 \<and> (\<forall>n < arch ! l. weights t (weight_key l n) \<noteq> None)
                 \<and> (\<forall>n ws. weights t (weight_key l n) = Some ws \<longrightarrow> length ws = arch ! (l - 1)))"
proof -
  let ?W = "filter (\<lambda>(name, param). is_weight_name name) model"
  from assms(1) obtain d a0 arch where w: "walk_parameters model empty_dict = Inr d"
    and a: "model_architecture d = Some (a0 # arch)"
    and t: "t = input_neurons [0..<a0] (d\<lparr>number_of_layers := Some (Suc (length arch))\<rparr>)"
    by (rule extractor_Inr)
  have e: "weights empty_dict k = None" for k by (simp add: empty_dict_def)
  have m: "model_architecture empty_dict = None" by (simp add: empty_dict_def)
  from w m a obtain pre name neuron ns post d1 ws where
    model: "model = pre @ (name, Tensor (neuron # ns)) # post"
    and pre: "\<forall>(nm, p) \<in> set pre. \<not> is_weight_name nm"
    and name: "is_weight_name name" "layer_of name = Inr 1"
    and it: "iter neuron = Inr ws"
    and "walk_neurons 1 0 (neuron # ns) empty_dict = Inr d1"
    and "model_architecture d1 = Some [length ws]"
    and "length (neuron_vector d1 1 0) = length (neuron_vector empty_dict 1 0) + length ws"
    and r: "walk_parameters post (d1\<lparr>model_architecture := Some [length ws, Suc (length ns)]\<rparr>) = Inr d"
    by (rule walk_parameters_seedE)
  let ?P = "filter (\<lambda>(name, param). is_weight_name name) post"
  from pre have "filter (\<lambda>(name, param). is_weight_name name) pre = []"
    by (auto simp: filter_empty_conv)
  with model name have W: "?W = (name, Tensor (neuron # ns)) # ?P" by simp
  from assms(3) W obtain m1 ms' where ms: "ms = m1 # ms'"
    and m1: "Tensor (neuron # ns) = matrix m1"
    and P: "map snd ?P = map matrix ms'"
    by (cases ms) auto
  from m1 obtain row rows where m1': "m1 = row # rows"
    and neuron: "neuron = Tensor (map Scalar row)" and ns: "length ns = length rows"
    by (cases m1) (auto simp: matrix_def)
  from it neuron have ws: "length ws = length row" by auto
  from assms(4) ms m1' have c0: "length row = c0" by force
  have "[1..<Suc (length ms)] = 1 # [2..<Suc (Suc (length ms'))]"
    using ms by (simp add: upt_conv_Cons numeral_2_eq_2 del: upt_Suc)
  with assms(2) W have Pl: "map (\<lambda>(name, param). layer_of name) ?P = map Inr [2..<Suc (Suc (length ms'))]"
    by (simp del: upt_Suc)
  have post: "\<forall>(name, param) \<in> set post. is_weight_name name \<longrightarrow> layer_of name \<noteq> Inr 1"
  proof (clarify)
    fix nm p assume "(nm, p) \<in> set post" "is_weight_name nm" "layer_of nm = Inr 1"
    then have "Inr 1 \<in> set (map (\<lambda>(name, param). layer_of name) ?P)" by force
    with Pl show False by auto
  qed
  have "model_architecture (d1\<lparr>model_architecture := Some [length ws, Suc (length ns)]\<rparr>)
      = Some [length ws, Suc (length ns)]" by simp
  from walk_parameters_appends [OF r this post] obtain ks where
    ks: "model_architecture d = Some ([length ws, Suc (length ns)] @ ks)"
    and kl: "map (\<lambda>(name, param). len param) ?P = map Inr ks" by blast
  have "map (\<lambda>(name, param). len param) ?P = map len (map snd ?P)"
    by (simp add: case_prod_unfold)
  also have "\<dots> = map Inr (map length ms')" by (simp add: P len_matrix)
  finally have "ks = map length ms'" using kl by (simp add: map_Inr_inj)
  with ks a ws c0 ns ms m1' have arch: "a0 # arch = c0 # map length ms" by simp
  from t a have ta: "model_architecture t = Some (a0 # arch)"
    and tn: "number_of_layers t = Some (length (a0 # arch))" by simp_all
  have dist: "distinct (map (\<lambda>(name, param). layer_of name) ?W)"
    unfolding assms(2) by (simp add: distinct_map)
  have layer: "card {n. weights t (weight_key l n) \<noteq> None} = (a0 # arch) ! l
      \<and> (\<forall>n < (a0 # arch) ! l. weights t (weight_key l n) \<noteq> None)
      \<and> (\<forall>n ws. weights t (weight_key l n) = Some ws \<longrightarrow> length ws = (a0 # arch) ! (l - 1))"
    if l: "1 \<le> l" "l < length (a0 # arch)" for l
  proof -
    define i where "i = l - 1"
    from l have li: "l = Suc i" by (simp add: i_def)
    from l arch li have i: "i < length ms" by auto
    from assms(2) have lw: "length ?W = length ms" by (metis length_map length_upt diff_Suc_1)
    obtain nm p where Wi: "?W ! i = (nm, p)" by (cases "?W ! i")
    from i lw have mem: "(nm, p) \<in> set ?W" by (metis Wi nth_mem)
    then have mm: "(nm, p) \<in> set model" and wn: "is_weight_name nm" by auto
    from i lw have "map (\<lambda>(name, param). layer_of name) ?W ! i = layer_of nm"
      by (simp add: Wi)
    moreover from i have "map Inr [1..<Suc (length ms)] ! i = (Inr (Suc i) :: error + nat)"
      by (simp del: upt_Suc)
    ultimately have ln: "layer_of nm = Inr l" using assms(2) li by simp
    from i lw have "map snd ?W ! i = p" by (simp add: Wi)
    with assms(3) i have p: "p = matrix (ms ! i)" by simp
    let ?rows = "ms ! i"
    from e have "\<forall>n. weights empty_dict (weight_key l n) = None" by simp
    from walk_parameters_rows [OF w dist mm [unfolded p] wn ln this] have
      v: "neuron_vector d l n = (if n < length ?rows then ?rows ! n else [])"
      and z: "weights d (weight_key l n) = None \<longleftrightarrow> (n < length ?rows \<longrightarrow> ?rows ! n = [])" for n
      by simp_all
    from li t have k: "weights t (weight_key l n) = weights d (weight_key l n)" for n
      by (simp add: input_neurons_other)
    from assms(4) i have rows: "\<forall>row \<in> set ?rows. row \<noteq> [] \<and> length row = (c0 # map length ms) ! i"
      by simp
    have al: "(a0 # arch) ! l = length ?rows"
      using arch li i by simp
    have al1: "(a0 # arch) ! (l - 1) = (c0 # map length ms) ! i"
      using arch li by simp
    have some: "weights t (weight_key l n) \<noteq> None \<longleftrightarrow> n < length ?rows" for n
      using z [of n] k [of n] rows by auto
    then have "{n. weights t (weight_key l n) \<noteq> None} = {..<length ?rows}" by auto
    then have c: "card {n. weights t (weight_key l n) \<noteq> None} = (a0 # arch) ! l"
      by (simp add: al)
    have len: "length xs = (a0 # arch) ! (l - 1)" if s: "weights t (weight_key l n) = Some xs" for n xs
    proof -
      from s some [of n] have n: "n < length ?rows" by simp
      from s k [of n] have "neuron_vector d l n = xs" by (simp add: neuron_vector_def)
      with v [of n] n have "xs = ?rows ! n" by simp
      with rows n al1 show ?thesis by simp
    qed
    from c some al len show ?thesis by simp
  qed
  from ta tn arch layer
  have "model_architecture t = Some (a0 # arch) \<and> number_of_layers t = Some (length (a0 # arch))
           \<and> length (a0 # arch) = length (a0 # arch) \<and> a0 # arch = c0 # map length ms
           \<and> (\<forall>l. 1 \<le> l \<and> l < length (a0 # arch) \<longrightarrow>
                 card {n. weights t (weight_key l n) \<noteq> None} = (a0 # arch) ! l
                 \<and> (\<forall>n < (a0 # arch) ! l. weights t (weight_key l n) \<noteq> None)
                 \<and> (\<forall>n ws. weights t (weight_key l n) = Some ws \<longrightarrow> length ws = (a0 # arch) ! (l - 1)))"
    by blast
  then show ?thesis
    by (intro exI [where x = "a0 # arch"] exI [where x = "length (a0 # arch)"])
qed

theorem layered_table_structure_witness:
  "model_architecture (projr (snn2mcu_param_dict_extractor
      [(''fc1.weight'', matrix [[Finite (1 / 10), Finite (2 / 10), Finite (3 / 10)], [Finite (4 / 10), Finite (5 / 10), Finite (6 / 10)]]),
       (''fc1.bias'', Tensor [Scalar (Finite 1), Scalar (Finite 2)]),
       (''fc2.weight'', matrix [[Finite (1 / 2), Finite (- 1 / 4)]]),
       (''fc2.bias'', Tensor [Scalar (Finite 3)])])) = Some [3, 2, 1]
   \<and> card {n. weights (projr (snn2mcu_param_dict_extractor
      [(''fc1.weight'', matrix [[Finite (1 / 10), Finite (2 / 10), Finite (3 / 10)], [Finite (4 / 10), Finite (5 / 10), Finite (6 / 10)]]),
       (''fc1.bias'', Tensor [Scalar (Finite 1), Scalar (Finite 2)]),
       (''fc2.weight'', matrix [[Finite (1 / 2), Finite (- 1 / 4)]]),
       (''fc2.bias'', Tensor [Scalar (Finite 3)])])) (weight_key 1 n) \<noteq> None} = 2"
proof -
  let ?m = "[(''fc1.weight'', matrix [[Finite (1 / 10), Finite (2 / 10), Finite (3 / 10)], [Finite (4 / 10), Finite (5 / 10), Finite (6 / 10)]]),
       (''fc1.bias'', Tensor [Scalar (Finite 1), Scalar (Finite 2)]),
       (''fc2.weight'', matrix [[Finite (1 / 2), Finite (- 1 / 4)]]),
       (''fc2.bias'', Tensor [Scalar (Finite 3)])]"
  let ?ms = "[[[Finite (1 / 10), Finite (2 / 10), Finite (3 / 10)], [Finite (4 / 10), Finite (5 / 10), Finite (6 / 10)]], [[Finite (1 / 2), Finite (- 1 / 4)]]]"
  have "\<not> isl (snn2mcu_param_dict_extractor ?m)" by code_simp
  then obtain t where t: "snn2mcu_param_dict_extractor ?m = Inr t"
    by (cases "snn2mcu_param_dict_extractor ?m") simp_all
  have "map (\<lambda>(name, param). layer_of name) (filter (\<lambda>(name, param). is_weight_name name) ?m)
      = map Inr [1, 2]" by code_simp
  moreover have "[1..<Suc (length ?ms)] = [1, 2]" by code_simp
  ultimately have h2: "map (\<lambda>(name, param). layer_of name) (filter (\<lambda>(name, param). is_weight_name name) ?m)
      = map Inr [1..<Suc (length ?ms)]" by simp
  have h3: "map snd (filter (\<lambda>(name, param). is_weight_name name) ?m) = map matrix ?ms"
    by code_simp
  have h4: "\<forall>i < length ?ms. \<forall>row \<in> set (?ms ! i).
           row \<noteq> [] \<and> length row = (3 # map length ?ms) ! i"
    by (simp add: less_Suc_eq)
  from layered_table_structure [OF t h2 h3 h4] obtain arch nl where
    "model_architecture t = Some arch" "number_of_layers t = Some nl" "length arch = nl"
    "arch = 3 # map length ?ms"
    "\<forall>l. 1 \<le> l \<and> l < nl \<longrightarrow> card {n. weights t (weight_key l n) \<noteq> None} = arch ! l"
    by blast
  then have "model_architecture t = Some [3, 2, 1]"
    and "card {n. weights t (weight_key 1 n) \<noteq> None} = 2"
    by auto
  with t show ?thesis by simp
qed

end
